theory Spec2Isabelle
  imports Complex_Main "HOL-Library.Word" "HOL-Library.Multiset"
begin

section \<open>Data model (src/main.go, lines 20-56)\<close>

text \<open>
  Go's \<open>int\<close> and \<open>int64\<close> are 64-bit two's complement integers: they are \<open>64 word\<close>
  here, read with \<open>sint\<close>, so that \<open>+\<close> and \<open>*\<close> wrap around as they do in Go.
  \<open>time.Duration\<close> is an \<open>int64\<close> of nanoseconds.
\<close>

type_synonym int64 = "64 word"

record Config =
  InputFile :: string
  OutputFile :: string
  Workers :: int64
  BatchSize :: int64
  RateLimit :: int64
  EnableSMTP :: bool
  Verbose :: bool

text \<open>The fields of \<open>InvalidEmail\<close> carry the names of their JSON tags.\<close>

record InvalidEmail =
  email :: string
  reason :: string

text \<open>
  \<open>Stats.StartTime\<close> is a reading of the clock. It is left out: the times computed from it
  are parameters of the functions that print them.
\<close>

record Stats =
  TotalChecked :: int64
  TotalValid :: int64
  TotalInvalid :: int64

record EmailJob =
  Index :: nat
  JobEmail :: string

record EmailResult =
  Email :: string
  IsValid :: bool
  Reason :: string

section \<open>The verifier's result and its translation into a verdict\<close>

text \<open>
  The fields of \<open>emailverifier.Result\<close> that \<open>evaluateResult\<close> reads. \<open>Result.SMTP\<close> is a
  pointer: \<open>nil\<close> is \<open>None\<close>.
\<close>

record Syntax =
  Valid :: bool

record SMTP =
  HostExists :: bool
  Deliverable :: bool
  Disabled :: bool

record Result =
  Syntax :: Syntax
  Disposable :: bool
  Suggestion :: string
  HasMxRecords :: bool
  SMTP :: "SMTP option"
  Reachable :: string

text \<open>src/main.go, lines 336-376. \<open>fmt.Sprintf\<close> with a single \<open>%s\<close> is concatenation.\<close>

definition evaluateResult :: "Result \<Rightarrow> bool \<times> string" where
  "evaluateResult result =
    (if \<not> Valid (Syntax result) then (False, ''invalid email syntax'')
     else if Disposable result then (False, ''disposable email address'')
     else if Suggestion result \<noteq> '''' then
       (False, ''possible typo, did you mean: '' @ Suggestion result)
     else if \<not> HasMxRecords result then (False, ''domain has no MX records'')
     else
       (case (case SMTP result of
                None \<Rightarrow> None
              | Some smtp \<Rightarrow>
                  if \<not> HostExists smtp then Some (False, ''SMTP host does not exist'')
                  else if \<not> Deliverable smtp then Some (False, ''email is not deliverable'')
                  else if Disabled smtp then Some (False, ''mailbox is disabled'')
                  else None) of
          Some verdict \<Rightarrow> verdict
        | None \<Rightarrow>
            if Reachable result = ''no'' then (False, ''email is not reachable'')
            else (True, '''')))"

text \<open>
  The SMTP rules of \<open>evaluateResult\<close> pass when no SMTP sub-result is present, or when the
  host exists, the address is deliverable and the mailbox is not disabled.
\<close>

definition smtp_passes :: "Result \<Rightarrow> bool" where
  "smtp_passes r =
    (case SMTP r of None \<Rightarrow> True
     | Some m \<Rightarrow> HostExists m \<and> Deliverable m \<and> \<not> Disabled m)"

section \<open>Workers\<close>

text \<open>
  The verifier is an external capability. \<open>verifier.Verify(email)\<close> is a function from the
  address to either the text of the error it returns (\<open>err.Error()\<close>, which is what \<open>%v\<close>
  prints) or a result. Every worker builds its own instance with the same options, so one
  function stands for all of them.
\<close>

type_synonym Verifier = "string \<Rightarrow> string + Result"

text \<open>
  src/main.go, lines 312-333. The \<open>log.Printf\<close> calls under \<open>verbose\<close> write to standard
  error and do not take part in the value returned; they are left out.
\<close>

definition verifyEmail :: "Verifier \<Rightarrow> string \<Rightarrow> bool \<Rightarrow> EmailResult" where
  "verifyEmail verifier email' verbose =
    (case verifier email' of
       Inl err \<Rightarrow>
         (let reason' = ''verification error: '' @ err
          in \<lparr>Email = email', IsValid = False, Reason = reason'\<rparr>)
     | Inr result \<Rightarrow>
         (let (isValid, reason') = evaluateResult result
          in \<lparr>Email = email', IsValid = isValid, Reason = reason'\<rparr>))"

text \<open>
  src/main.go, lines 301-309: the loop of one worker, as the sequence of results it sends for
  the sequence of jobs it receives. Each iteration sends the result of \<open>verifyEmail\<close> for the
  job it took. The sleep of \<open>config.RateLimit\<close> changes no value.
\<close>

fun worker :: "Verifier \<Rightarrow> Config \<Rightarrow> EmailJob list \<Rightarrow> EmailResult list" where
  "worker verifier config [] = []"
| "worker verifier config (job # jobs) =
     verifyEmail verifier (JobEmail job) (Verbose config) # worker verifier config jobs"

section \<open>The pipeline of \<open>processEmails\<close>\<close>

subsection \<open>Channels\<close>

text \<open>
  A Go channel with a buffer: the queue of values sent and not yet received, and whether
  the channel has been closed. A send blocks while the buffer is full and panics on a
  closed channel; a receive blocks on an empty open channel and reports the end on an empty
  closed one; closing a closed channel panics.
\<close>

record 'a chan =
  queue :: "'a list"
  closed :: bool

datatype 'a send = Sent "'a chan" | SendBlocked | SendPanic

datatype 'a recv = Received 'a "'a chan" | RecvEnd | RecvBlocked

definition make_chan :: "'a chan" where
  "make_chan = \<lparr>queue = [], closed = False\<rparr>"

definition chan_send :: "nat \<Rightarrow> 'a chan \<Rightarrow> 'a \<Rightarrow> 'a send" where
  "chan_send capacity c v =
    (if closed c then SendPanic
     else if length (queue c) < capacity then Sent (c\<lparr>queue := queue c @ [v]\<rparr>)
     else SendBlocked)"

definition chan_recv :: "'a chan \<Rightarrow> 'a recv" where
  "chan_recv c =
    (case queue c of
       v # rest \<Rightarrow> Received v (c\<lparr>queue := rest\<rparr>)
     | [] \<Rightarrow> if closed c then RecvEnd else RecvBlocked)"

definition chan_close :: "'a chan \<Rightarrow> 'a chan option" where
  "chan_close c = (if closed c then None else Some (c\<lparr>closed := True\<rparr>))"

subsection \<open>Goroutines and the shared state\<close>

text \<open>
  The places where a goroutine can be between two steps. The driver is the goroutine that
  runs \<open>processEmails\<close>: in its dispatch loop (the jobs still to send are \<open>todo\<close>; with none
  left its next step is \<open>close(jobs)\<close>), in \<open>wg.Wait()\<close>, before \<open>close(results)\<close>, in
  \<open>collectorWg.Wait()\<close>, or returned. A worker is at the head of its \<open>range jobs\<close> loop, holds
  a result it is about to send, or has left the loop (its deferred \<open>wg.Done()\<close> has run).
  The collector is at the head of its \<open>range results\<close> loop or has left it.
\<close>

datatype driver_pc = DSend | DWaitWorkers | DCloseResults | DWaitCollector | DReturned

datatype worker_pc = WRecv | WSend EmailResult | WExited

datatype collector_pc = CRecv | CExited

datatype panic = MakeChanSize | SendOnClosed | CloseOfClosed | DivideByZero

record pipeline =
  todo :: "EmailJob list"
  driver :: driver_pc
  jobs :: "EmailJob chan"
  workers :: "worker_pc list"
  results :: "EmailResult chan"
  collector :: collector_pc
  stats :: Stats
  invalidEmails :: "InvalidEmail list"
  panicked :: "panic option"

text \<open>
  src/main.go, lines 220-221: both channels have capacity \<open>config.Workers*2\<close>, a product of
  64-bit integers that wraps around. \<open>make\<close> panics on a negative size. (It also panics on
  a size beyond the memory it can address. Such a run ends before its first step, so that
  leaving this out only adds runs.)
\<close>

definition chan_size :: "Config \<Rightarrow> int" where
  "chan_size config = sint (Workers config * 2)"

text \<open>
  src/main.go, lines 225-228: the loop \<open>for i := 0; i < config.Workers; i++\<close> starts one
  worker per iteration; it starts none when \<open>config.Workers\<close> is zero or negative.
\<close>

definition worker_count :: "Config \<Rightarrow> nat" where
  "worker_count config = nat (sint (Workers config))"

text \<open>The jobs of the dispatch loop \<open>for i, email := range emails\<close>, in order.\<close>

definition all_jobs :: "string list \<Rightarrow> EmailJob list" where
  "all_jobs emails = map (\<lambda>(i, e). \<lparr>Index = i, JobEmail = e\<rparr>) (enumerate 0 emails)"

text \<open>
  The state once the channels are made, the workers and the collector are started, and the
  driver is about to enter its dispatch loop (src/main.go, lines 216-273).
\<close>

definition processEmails_start :: "string list \<Rightarrow> Config \<Rightarrow> Stats \<Rightarrow> pipeline" where
  "processEmails_start emails config stats0 =
    \<lparr>todo = all_jobs emails,
     driver = DSend,
     jobs = make_chan,
     workers = replicate (worker_count config) WRecv,
     results = make_chan,
     collector = CRecv,
     stats = stats0,
     invalidEmails = [],
     panicked = (if chan_size config < 0 then Some MakeChanSize else None)\<rparr>"

subsection \<open>Steps\<close>

text \<open>
  src/main.go, lines 273-286. Each case is one blocking operation of the driver: a send of
  the next job, \<open>close(jobs)\<close>, \<open>wg.Wait()\<close>, \<open>close(results)\<close>, \<open>collectorWg.Wait()\<close>.
  \<open>None\<close> means that the operation blocks in this state.
\<close>

definition driver_step :: "Config \<Rightarrow> pipeline \<Rightarrow> pipeline option" where
  "driver_step config s =
    (case driver s of
       DSend \<Rightarrow>
         (case todo s of
            job # rest \<Rightarrow>
              (case chan_send (nat (chan_size config)) (jobs s) job of
                 Sent c \<Rightarrow> Some (s\<lparr>jobs := c, todo := rest\<rparr>)
               | SendBlocked \<Rightarrow> None
               | SendPanic \<Rightarrow> Some (s\<lparr>panicked := Some SendOnClosed\<rparr>))
          | [] \<Rightarrow>
              (case chan_close (jobs s) of
                 Some c \<Rightarrow> Some (s\<lparr>jobs := c, driver := DWaitWorkers\<rparr>)
               | None \<Rightarrow> Some (s\<lparr>panicked := Some CloseOfClosed\<rparr>)))
     | DWaitWorkers \<Rightarrow>
         if list_all (\<lambda>w. w = WExited) (workers s) then Some (s\<lparr>driver := DCloseResults\<rparr>)
         else None
     | DCloseResults \<Rightarrow>
         (case chan_close (results s) of
            Some c \<Rightarrow> Some (s\<lparr>results := c, driver := DWaitCollector\<rparr>)
          | None \<Rightarrow> Some (s\<lparr>panicked := Some CloseOfClosed\<rparr>))
     | DWaitCollector \<Rightarrow>
         if collector s = CExited then Some (s\<lparr>driver := DReturned\<rparr>) else None
     | DReturned \<Rightarrow> None)"

text \<open>
  src/main.go, lines 289-310: worker \<open>i\<close> receives a job and verifies it, sends the result
  it holds, or leaves its loop when the job channel is closed and empty.
\<close>

definition worker_step :: "Verifier \<Rightarrow> Config \<Rightarrow> nat \<Rightarrow> pipeline \<Rightarrow> pipeline option" where
  "worker_step verifier config i s =
    (if length (workers s) \<le> i then None
     else
       (case workers s ! i of
          WRecv \<Rightarrow>
            (case chan_recv (jobs s) of
               Received job c \<Rightarrow>
                 Some (s\<lparr>jobs := c,
                   workers := (workers s)
                     [i := WSend (verifyEmail verifier (JobEmail job) (Verbose config))]\<rparr>)
             | RecvEnd \<Rightarrow> Some (s\<lparr>workers := (workers s)[i := WExited]\<rparr>)
             | RecvBlocked \<Rightarrow> None)
        | WSend result \<Rightarrow>
            (case chan_send (nat (chan_size config)) (results s) result of
               Sent c \<Rightarrow> Some (s\<lparr>results := c, workers := (workers s)[i := WRecv]\<rparr>)
             | SendBlocked \<Rightarrow> None
             | SendPanic \<Rightarrow> Some (s\<lparr>panicked := Some SendOnClosed\<rparr>))
        | WExited \<Rightarrow> None))"

text \<open>
  src/main.go, lines 241-253: what the collector does with one result, in the order of the
  source: the valid or the invalid counter (and the list of invalid addresses) first,
  then the counter of checked addresses. \<open>atomic.AddInt64\<close> wraps around.
\<close>

definition collect :: "EmailResult \<Rightarrow> Stats \<times> InvalidEmail list \<Rightarrow> Stats \<times> InvalidEmail list" where
  "collect result = (\<lambda>(st, invalid).
    (let (st1, invalid1) =
       (if IsValid result then (st\<lparr>TotalValid := TotalValid st + 1\<rparr>, invalid)
        else (st\<lparr>TotalInvalid := TotalInvalid st + 1\<rparr>,
              invalid @ [\<lparr>email = Email result, reason = Reason result\<rparr>]))
     in (st1\<lparr>TotalChecked := TotalChecked st1 + 1\<rparr>, invalid1)))"

text \<open>
  src/main.go, lines 240-270: one iteration of the collector. After the counters, the
  condition of the progress report evaluates \<open>checked%int64(config.BatchSize)\<close> first, which
  panics when the batch size is zero. This is the only integer division of the program by
  a number that can be zero. The report itself computes with floating point numbers and
  logs; it changes no state.
\<close>

definition collector_step :: "Config \<Rightarrow> pipeline \<Rightarrow> pipeline option" where
  "collector_step config s =
    (case collector s of
       CRecv \<Rightarrow>
         (case chan_recv (results s) of
            Received result c \<Rightarrow>
              (let (st, invalid) = collect result (stats s, invalidEmails s);
                   s' = s\<lparr>results := c, stats := st, invalidEmails := invalid\<rparr>
               in if BatchSize config = 0 then Some (s'\<lparr>panicked := Some DivideByZero\<rparr>)
                  else Some s')
          | RecvEnd \<Rightarrow> Some (s\<lparr>collector := CExited\<rparr>)
          | RecvBlocked \<Rightarrow> None)
     | CExited \<Rightarrow> None)"

text \<open>
  A run is a sequence of steps, each by one goroutine chosen by the scheduler. A panic in
  any goroutine ends the program: no step follows it.
\<close>

datatype action = Driver | Worker nat | Collector

definition step :: "Verifier \<Rightarrow> Config \<Rightarrow> action \<Rightarrow> pipeline \<Rightarrow> pipeline option" where
  "step verifier config a s =
    (if panicked s \<noteq> None then None
     else
       (case a of
          Driver \<Rightarrow> driver_step config s
        | Worker i \<Rightarrow> worker_step verifier config i s
        | Collector \<Rightarrow> collector_step config s))"

fun exec :: "Verifier \<Rightarrow> Config \<Rightarrow> action list \<Rightarrow> pipeline \<Rightarrow> pipeline option" where
  "exec verifier config [] s = Some s"
| "exec verifier config (a # as) s =
     (case step verifier config a s of
        None \<Rightarrow> None
      | Some s' \<Rightarrow> exec verifier config as s')"

text \<open>\<open>main\<close> passes statistics whose counters are zero (src/main.go, lines 83-88).\<close>

definition new_Stats :: Stats where
  "new_Stats = \<lparr>TotalChecked = 0, TotalValid = 0, TotalInvalid = 0\<rparr>"

text \<open>
  \<open>processEmails\<close> has returned when the driver has; the value it returns is the list of
  invalid addresses.
\<close>

definition completed :: "pipeline \<Rightarrow> bool" where
  "completed s = (driver s = DReturned \<and> panicked s = None)"

subsection \<open>Invariants of the pipeline\<close>

text \<open>
  The order of the shutdown: the job channel is closed exactly when the driver has left its
  dispatch loop, with no job left to send; the result channel is closed exactly when the
  driver has passed \<open>close(results)\<close>, which it reaches only when every worker has left its
  loop; a worker leaves only when the job channel is closed and empty; the collector leaves
  only when the result channel is closed and empty; the driver returns only after the
  collector has left; and no goroutine has sent on or closed a closed channel.
\<close>

definition shutdown_order :: "pipeline \<Rightarrow> bool" where
  "shutdown_order s =
    ((closed (jobs s) \<longleftrightarrow> driver s \<noteq> DSend)
     \<and> (closed (jobs s) \<longrightarrow> todo s = [])
     \<and> (closed (results s) \<longleftrightarrow> driver s = DWaitCollector \<or> driver s = DReturned)
     \<and> (driver s = DCloseResults \<or> closed (results s) \<longrightarrow>
          list_all (\<lambda>w. w = WExited) (workers s))
     \<and> (WExited \<in> set (workers s) \<longrightarrow> closed (jobs s) \<and> queue (jobs s) = [])
     \<and> (collector s = CExited \<longrightarrow> closed (results s) \<and> queue (results s) = [])
     \<and> (driver s = DReturned \<longrightarrow> collector s = CExited)
     \<and> panicked s \<noteq> Some SendOnClosed \<and> panicked s \<noteq> Some CloseOfClosed)"

text \<open>
  The outcome of an address is the result a worker computes for it. The outcomes in flight
  are those of the jobs not yet sent, of the jobs in the job channel, the results held by
  workers, and the results in the result channel.
\<close>

definition outcome :: "Verifier \<Rightarrow> Config \<Rightarrow> string \<Rightarrow> EmailResult" where
  "outcome verifier config e = verifyEmail verifier e (Verbose config)"

fun held :: "worker_pc \<Rightarrow> EmailResult multiset" where
  "held (WSend r) = {#r#}"
| "held WRecv = {#}"
| "held WExited = {#}"

definition in_flight :: "Verifier \<Rightarrow> Config \<Rightarrow> pipeline \<Rightarrow> EmailResult multiset" where
  "in_flight verifier config s =
    mset (map (\<lambda>j. outcome verifier config (JobEmail j)) (todo s))
    + mset (map (\<lambda>j. outcome verifier config (JobEmail j)) (queue (jobs s)))
    + sum_list (map held (workers s))
    + mset (queue (results s))"

definition invalid_of :: "EmailResult \<Rightarrow> InvalidEmail" where
  "invalid_of r = \<lparr>email = Email r, reason = Reason r\<rparr>"

text \<open>
  The accounting of outcomes: the outcomes of the input are those in flight together with
  those counted, the counters count the latter, and the list holds the invalid ones.
\<close>

definition accounted :: "Verifier \<Rightarrow> Config \<Rightarrow> string list \<Rightarrow> pipeline \<Rightarrow> bool" where
  "accounted verifier config emails s =
    (\<exists>counted.
       mset (map (outcome verifier config) emails) = in_flight verifier config s + counted
       \<and> TotalChecked (stats s) = TotalValid (stats s) + TotalInvalid (stats s)
       \<and> TotalInvalid (stats s) = of_nat (length (invalidEmails s))
       \<and> TotalValid (stats s) = of_nat (size (filter_mset IsValid counted))
       \<and> mset (invalidEmails s) =
           image_mset invalid_of (filter_mset (\<lambda>r. \<not> IsValid r) counted))"

subsection \<open>A concrete run\<close>

text \<open>
  A verifier that fails on one address with a network error and finds the syntax of
  another invalid, a configuration with two workers, and a schedule under which the two
  workers run interleaved and the run completes.
\<close>

definition demo_verifier :: Verifier where
  "demo_verifier e =
    (if e = ''bad@example.com'' then Inl ''dial tcp: i/o timeout''
     else Inr \<lparr>Syntax = \<lparr>Valid = (e \<noteq> ''not-an-address'')\<rparr>, Disposable = False,
       Suggestion = '''', HasMxRecords = True, SMTP = None, Reachable = ''unknown''\<rparr>)"

definition demo_config :: Config where
  "demo_config =
    \<lparr>InputFile = ''data/data.json'', OutputFile = ''data/invalid_emails.json'', Workers = 2,
     BatchSize = 1000, RateLimit = 10000000, EnableSMTP = True, Verbose = False\<rparr>"

definition demo_emails :: "string list" where
  "demo_emails = [''good@example.com'', ''bad@example.com'']"

definition demo_schedule :: "action list" where
  "demo_schedule =
    [Driver, Driver, Worker 0, Worker 1, Worker 1, Worker 0, Collector, Collector,
     Driver, Worker 0, Worker 1, Driver, Driver, Collector, Driver]"

definition demo_final :: pipeline where
  "demo_final =
    \<lparr>todo = [], driver = DReturned, jobs = \<lparr>queue = [], closed = True\<rparr>,
     workers = [WExited, WExited], results = \<lparr>queue = [], closed = True\<rparr>,
     collector = CExited,
     stats = \<lparr>TotalChecked = 2, TotalValid = 1, TotalInvalid = 1\<rparr>,
     invalidEmails =
       [\<lparr>email = ''bad@example.com'', reason = ''verification error: dial tcp: i/o timeout''\<rparr>],
     panicked = None\<rparr>"

text \<open>
  The worker count \<open>-9223372036854775807\<close>, which the flag \<open>-workers\<close> accepts: no worker is
  started, and \<open>config.Workers*2\<close> wraps around to the channel capacity 2.
\<close>

definition wrapped_config :: Config where
  "wrapped_config = demo_config\<lparr>Workers := - 9223372036854775807\<rparr>"

definition wrapped_schedule :: "action list" where
  "wrapped_schedule = [Driver, Driver, Driver, Driver, Collector, Driver]"

definition wrapped_final :: "string \<Rightarrow> pipeline" where
  "wrapped_final e =
    \<lparr>todo = [], driver = DReturned,
     jobs = \<lparr>queue = [\<lparr>Index = 0, JobEmail = e\<rparr>], closed = True\<rparr>,
     workers = [], results = \<lparr>queue = [], closed = True\<rparr>,
     collector = CExited,
     stats = \<lparr>TotalChecked = 0, TotalValid = 0, TotalInvalid = 0\<rparr>,
     invalidEmails = [], panicked = None\<rparr>"

text \<open>The state of the concrete run after its first five steps.\<close>

definition demo_mid :: pipeline where
  "demo_mid =
    \<lparr>todo = [], driver = DSend, jobs = \<lparr>queue = [], closed = False\<rparr>,
     workers = [WSend \<lparr>Email = ''good@example.com'', IsValid = True, Reason = ''''\<rparr>, WRecv],
     results = \<lparr>queue = [\<lparr>Email = ''bad@example.com'', IsValid = False,
       Reason = ''verification error: dial tcp: i/o timeout''\<rparr>], closed = False\<rparr>,
     collector = CRecv,
     stats = \<lparr>TotalChecked = 0, TotalValid = 0, TotalInvalid = 0\<rparr>,
     invalidEmails = [], panicked = None\<rparr>"



text \<open>
  The state of the concrete run after its first three steps: the second worker is about to
  receive the job on which the verifier fails.
\<close>

definition demo_early :: pipeline where
  "demo_early =
    \<lparr>todo = [], driver = DSend,
     jobs = \<lparr>queue = [\<lparr>Index = 1, JobEmail = ''bad@example.com''\<rparr>], closed = False\<rparr>,
     workers = [WSend \<lparr>Email = ''good@example.com'', IsValid = True, Reason = ''''\<rparr>, WRecv],
     results = \<lparr>queue = [], closed = False\<rparr>,
     collector = CRecv,
     stats = \<lparr>TotalChecked = 0, TotalValid = 0, TotalInvalid = 0\<rparr>,
     invalidEmails = [], panicked = None\<rparr>"

subsection \<open>What a run verifies and collects\<close>

text \<open>
  The job that a step takes out of the job channel, and the result that a step takes out of
  the result channel, if any. The first is a job that a worker verifies in that step: its
  outcome is produced there. The second is a result that the collector processes.
\<close>

definition taken :: "pipeline \<Rightarrow> pipeline \<Rightarrow> EmailJob list" where
  "taken s s' =
    (if length (queue (jobs s')) < length (queue (jobs s)) then take 1 (queue (jobs s))
     else [])"

definition delivered :: "pipeline \<Rightarrow> pipeline \<Rightarrow> EmailResult list" where
  "delivered s s' =
    (if length (queue (results s')) < length (queue (results s)) then take 1 (queue (results s))
     else [])"

text \<open>
  The jobs that the workers verify in a run, and the results that the collector processes
  in it, each in the order of the steps.
\<close>

fun verified_jobs :: "Verifier \<Rightarrow> Config \<Rightarrow> action list \<Rightarrow> pipeline \<Rightarrow> EmailJob list" where
  "verified_jobs verifier config [] s = []"
| "verified_jobs verifier config (a # as) s =
     (case step verifier config a s of
        None \<Rightarrow> []
      | Some s' \<Rightarrow> taken s s' @ verified_jobs verifier config as s')"

fun collected_results ::
  "Verifier \<Rightarrow> Config \<Rightarrow> action list \<Rightarrow> pipeline \<Rightarrow> EmailResult list" where
  "collected_results verifier config [] s = []"
| "collected_results verifier config (a # as) s =
     (case step verifier config a s of
        None \<Rightarrow> []
      | Some s' \<Rightarrow> delivered s s' @ collected_results verifier config as s')"

section \<open>The streaming reader\<close>

subsection \<open>JSON documents and the tokens of the decoder\<close>

text \<open>
  A well-formed JSON document, and the sequence of tokens that \<open>json.Decoder.Token\<close> returns
  for it: the four delimiters, and one token for each string (member names included),
  number, boolean and null; commas and colons are not tokens.
\<close>

datatype json =
  JNull
| JBool bool
| JNumber string
| JString string
| JArray "json list"
| JObject "(string \<times> json) list"

datatype delim = LBrace | RBrace | LBrack | RBrack

datatype token = Delim delim | TString string | TNumber string | TBool bool | TNull

fun tokens :: "json \<Rightarrow> token list"
  and elements :: "json list \<Rightarrow> token list"
  and members :: "(string \<times> json) list \<Rightarrow> token list" where
  "tokens JNull = [TNull]"
| "tokens (JBool b) = [TBool b]"
| "tokens (JNumber n) = [TNumber n]"
| "tokens (JString s) = [TString s]"
| "tokens (JArray vs) = Delim LBrack # elements vs @ [Delim RBrack]"
| "tokens (JObject ms) = Delim LBrace # members ms @ [Delim RBrace]"
| "elements [] = []"
| "elements (v # vs) = tokens v @ elements vs"
| "members [] = []"
| "members ((k, v) # ms) = TString k # tokens v @ members ms"

text \<open>
  The decoder of \<open>encoding/json\<close>, on the tokens that remain to be read. \<open>Token\<close> returns
  the next token, or \<open>io.EOF\<close> at the end of the input. \<open>More\<close> reports whether the next
  token exists and is not a closing delimiter, at whatever depth the decoder is.
  \<open>Decode\<close> into a string variable reads the next value: a string is stored, \<open>null\<close> leaves
  the variable as it is (empty, as it is declared anew in each iteration), and any other
  value is an error.
\<close>

datatype json_error = EOF | UnmarshalTypeError | SyntaxError

definition decoder_Token :: "token list \<Rightarrow> json_error + token \<times> token list" where
  "decoder_Token dec = (case dec of [] \<Rightarrow> Inl EOF | t # rest \<Rightarrow> Inr (t, rest))"

definition decoder_More :: "token list \<Rightarrow> bool" where
  "decoder_More dec =
    (case dec of [] \<Rightarrow> False | t # rest \<Rightarrow> t \<noteq> Delim RBrack \<and> t \<noteq> Delim RBrace)"

definition decoder_Decode :: "token list \<Rightarrow> json_error + string \<times> token list" where
  "decoder_Decode dec =
    (case dec of
       [] \<Rightarrow> Inl EOF
     | TString s # rest \<Rightarrow> Inr (s, rest)
     | TNull # rest \<Rightarrow> Inr ('''', rest)
     | TNumber n # rest \<Rightarrow> Inl UnmarshalTypeError
     | TBool b # rest \<Rightarrow> Inl UnmarshalTypeError
     | Delim LBrack # rest \<Rightarrow> Inl UnmarshalTypeError
     | Delim LBrace # rest \<Rightarrow> Inl UnmarshalTypeError
     | Delim RBrack # rest \<Rightarrow> Inl SyntaxError
     | Delim RBrace # rest \<Rightarrow> Inl SyntaxError)"

subsection \<open>Files and slices\<close>

text \<open>
  An input file: what \<open>file.Stat()\<close> returns (the text of an error, or the size in bytes) and
  the tokens of its content. The file system gives, for a path, what \<open>os.Open\<close> returns.
\<close>

record input_file =
  stat :: "string + int"
  content :: "token list"

type_synonym input_fs = "string \<Rightarrow> string + input_file"

text \<open>
  A Go slice of strings: its elements and its capacity. \<open>append\<close> stores in place while the
  capacity allows and moves the elements to a larger array otherwise; how much larger is
  the runtime's choice (at least double here), and no property below depends on the factor.
\<close>

record string_slice =
  elems :: "string list"
  cap :: nat

definition make_slice :: "nat \<Rightarrow> string_slice" where
  "make_slice n = \<lparr>elems = [], cap = n\<rparr>"

definition append_slice :: "string_slice \<Rightarrow> string \<Rightarrow> string_slice" where
  "append_slice s x =
    (if length (elems s) < cap s then s\<lparr>elems := elems s @ [x]\<rparr>
     else \<lparr>elems = elems s @ [x], cap = max (2 * cap s) (length (elems s) + 1)\<rparr>)"

subsection \<open>\<open>readEmailsStreaming\<close>\<close>

text \<open>Go's integer division truncates towards zero.\<close>

definition go_quot :: "int \<Rightarrow> int \<Rightarrow> int" where
  "go_quot a b =
    (if (a < 0) = (b < 0) then \<bar>a\<bar> div \<bar>b\<bar> else - (\<bar>a\<bar> div \<bar>b\<bar>))"

text \<open>
  src/main.go, lines 392-399. The size is an \<open>int64\<close>; dividing it by 35 and comparing it
  cannot overflow, so it is an \<open>int\<close> here.
\<close>

definition estimatedCapacity :: "int \<Rightarrow> int" where
  "estimatedCapacity size' =
    (let c = go_quot size' 35;
         c = (if c < 100 then 100 else c);
         c = (if c > 10000000 then 10000000 else c)
     in c)"

datatype read_error =
  OpenFailed string
| StatFailed string
| ReadJSONFailed json_error
| ExpectedObjectStart token
| ReadTokenFailed json_error
| ReadArrayStartFailed json_error
| ExpectedArrayStart token
| DecodeEmailFailed json_error
| ReadArrayEndFailed json_error

lemma decoder_Decode_shorter:
  "decoder_Decode dec = Inr (x, dec') \<Longrightarrow> length dec' < length dec"
  by (auto simp: decoder_Decode_def split: list.splits token.splits delim.splits)

lemma decoder_Token_shorter:
  "decoder_Token dec = Inr (t, dec') \<Longrightarrow> length dec' < length dec"
  by (auto simp: decoder_Token_def split: list.splits)

text \<open>src/main.go, lines 432-438: the loop that reads the elements of the array.\<close>

function read_emails :: "token list \<Rightarrow> string_slice \<Rightarrow> read_error + string_slice \<times> token list" where
  "read_emails dec emails =
    (if decoder_More dec then
       (case decoder_Decode dec of
          Inl e \<Rightarrow> Inl (DecodeEmailFailed e)
        | Inr (email', dec') \<Rightarrow> read_emails dec' (append_slice emails email'))
     else Inr (emails, dec))"
  by pat_completeness auto
termination
  by (relation "measure (\<lambda>(dec, emails). length dec)") (auto dest: decoder_Decode_shorter)

declare read_emails.simps [simp del]

text \<open>
  src/main.go, lines 415-446: the loop that looks for the string "emails". It takes one
  token per iteration, be it a member name, a value, or a delimiter of a nested value.
\<close>

function read_members :: "token list \<Rightarrow> string_slice \<Rightarrow> read_error + string_slice" where
  "read_members dec emails =
    (if decoder_More dec then
       (case decoder_Token dec of
          Inl e \<Rightarrow> Inl (ReadTokenFailed e)
        | Inr (token, dec1) \<Rightarrow>
            if token = TString ''emails'' then
              (case decoder_Token dec1 of
                 Inl e \<Rightarrow> Inl (ReadArrayStartFailed e)
               | Inr (token', dec2) \<Rightarrow>
                   if token' \<noteq> Delim LBrack then Inl (ExpectedArrayStart token')
                   else
                     (case read_emails dec2 emails of
                        Inl e \<Rightarrow> Inl e
                      | Inr (emails', dec3) \<Rightarrow>
                          (case decoder_Token dec3 of
                             Inl e \<Rightarrow> Inl (ReadArrayEndFailed e)
                           | Inr end_token \<Rightarrow> Inr emails')))
            else read_members dec1 emails)
     else Inr emails)"
  by pat_completeness auto
termination
  by (relation "measure (\<lambda>(dec, emails). length dec)") (auto dest: decoder_Token_shorter)

declare read_members.simps [simp del]

text \<open>
  src/main.go, lines 379-450, with the slice that the function returns as Go has it: its
  elements and its capacity. The buffered reader and the deferred \<open>file.Close()\<close> change no
  value, and the log line is left out.
\<close>

definition readEmailsStreaming_slice :: "input_fs \<Rightarrow> string \<Rightarrow> read_error + string_slice" where
  "readEmailsStreaming_slice fs filename =
    (case fs filename of
       Inl err \<Rightarrow> Inl (OpenFailed err)
     | Inr file \<Rightarrow>
         (case stat file of
            Inl err \<Rightarrow> Inl (StatFailed err)
          | Inr size' \<Rightarrow>
              (let emails = make_slice (nat (estimatedCapacity size'));
                   decoder = content file
               in case decoder_Token decoder of
                    Inl err \<Rightarrow> Inl (ReadJSONFailed err)
                  | Inr (token, decoder1) \<Rightarrow>
                      if token \<noteq> Delim LBrace then Inl (ExpectedObjectStart token)
                      else read_members decoder1 emails)))"

text \<open>
  What the caller has of that slice: its elements, which \<open>len\<close>, indexing and \<open>range\<close> read.
\<close>

definition readEmailsStreaming :: "input_fs \<Rightarrow> string \<Rightarrow> read_error + string list" where
  "readEmailsStreaming fs filename = map_sum id elems (readEmailsStreaming_slice fs filename)"

text \<open>A file system with one file, whose content is the document \<open>v\<close>.\<close>

definition file_of :: "int \<Rightarrow> json \<Rightarrow> input_fs" where
  "file_of size' v = (\<lambda>path. Inr \<lparr>stat = Inr size', content = tokens v\<rparr>)"

text \<open>
  A value that is a single token other than the string "emails": null, a boolean, a number,
  or another string.
\<close>

fun plain_value :: "json \<Rightarrow> bool" where
  "plain_value JNull = True"
| "plain_value (JBool b) = True"
| "plain_value (JNumber n) = True"
| "plain_value (JString s) = (s \<noteq> ''emails'')"
| "plain_value (JArray vs) = False"
| "plain_value (JObject ms) = False"

text \<open>A document with two addresses.\<close>

definition demo_document :: json where
  "demo_document =
    JObject [(''emails'', JArray [JString ''good@example.com'', JString ''bad@example.com''])]"
section \<open>The streaming writer\<close>

subsection \<open>The output file and the buffered writer\<close>

text \<open>
  An output file on a device that accepts \<open>room\<close> more bytes: \<open>data\<close> is what has reached the
  file. A write that does not fit stores what fits and returns an error, as a full disk
  does.
\<close>

record os_File =
  data :: string
  room :: nat

definition file_Write :: "os_File \<Rightarrow> string \<Rightarrow> os_File \<times> nat \<times> string option" where
  "file_Write f p =
    (if length p \<le> room f
     then (f\<lparr>data := data f @ p, room := room f - length p\<rparr>, length p, None)
     else (f\<lparr>data := data f @ take (room f) p, room := 0\<rparr>, room f,
           Some ''no space left on device''))"

text \<open>
  \<open>bufio.Writer\<close>: the bytes buffered, the size of the buffer, the first error met (after
  which it accepts no more data), and the file underneath.
\<close>

record bufio_Writer =
  buf :: string
  bufsize :: nat
  err :: "string option"
  wr :: os_File

definition NewWriterSize :: "os_File \<Rightarrow> nat \<Rightarrow> bufio_Writer" where
  "NewWriterSize w n = \<lparr>buf = [], bufsize = (if n = 0 then 4096 else n), err = None, wr = w\<rparr>"

definition Available :: "bufio_Writer \<Rightarrow> nat" where
  "Available b = bufsize b - length (buf b)"

definition bufio_Flush :: "bufio_Writer \<Rightarrow> bufio_Writer \<times> string option" where
  "bufio_Flush b =
    (case err b of
       Some e \<Rightarrow> (b, Some e)
     | None \<Rightarrow>
         if buf b = [] then (b, None)
         else
           (case file_Write (wr b) (buf b) of
              (f, n, e) \<Rightarrow>
                (case (if n < length (buf b) \<and> e = None then Some ''short write'' else e) of
                   Some e' \<Rightarrow> (b\<lparr>buf := drop n (buf b), err := Some e', wr := f\<rparr>, Some e')
                 | None \<Rightarrow> (b\<lparr>buf := [], wr := f\<rparr>, None))))"

lemma file_Write_all:
  "file_Write f p = (f', n, None) \<Longrightarrow> n = length p"
  by (auto simp: file_Write_def split: if_splits)

lemma bufio_Flush_ok:
  "err b = None \<Longrightarrow> err (fst (bufio_Flush b)) = None \<Longrightarrow> buf (fst (bufio_Flush b)) = []"
  by (auto simp: bufio_Flush_def split: prod.splits option.splits if_splits)

text \<open>
  \<open>Writer.Write\<close>: while the data does not fit into the buffer and no error is set, a write
  to an empty buffer goes to the file directly, and otherwise the buffer is filled and
  flushed; what remains is copied into the buffer. \<open>WriteString\<close> on a writer over a file
  does the same, and \<open>fmt.Fprintf\<close> formats its arguments and calls \<open>Write\<close> once.
\<close>

function bufio_Write :: "bufio_Writer \<Rightarrow> string \<Rightarrow> bufio_Writer \<times> string option" where
  "bufio_Write b p =
    (if length p > Available b \<and> err b = None then
       (if buf b = [] then
          (case file_Write (wr b) p of
             (f, n, e) \<Rightarrow> bufio_Write (b\<lparr>wr := f, err := e\<rparr>) (drop n p))
        else
          (let n = Available b;
               b' = fst (bufio_Flush (b\<lparr>buf := buf b @ take n p\<rparr>))
           in bufio_Write b' (drop n p)))
     else if err b \<noteq> None then (b, err b)
     else (b\<lparr>buf := buf b @ p\<rparr>, None))"
  by pat_completeness auto
termination
proof (relation "measures [\<lambda>(b, p). if err b = None then 1 else 0,
    \<lambda>(b, p). length p, \<lambda>(b, p). length (buf b)]", goal_cases)
  case 1
  show ?case by simp
next
  case (2 b p f y n e)
  then have w: "file_Write (wr b) p = (f, n, e)" by simp
  show ?case
  proof (cases e)
    case None
    with w have "n = length p" by (simp add: file_Write_all)
    with 2 None show ?thesis by auto
  next
    case (Some e')
    with 2 show ?thesis by simp
  qed
next
  case (3 b p n b')
  let ?b = "b\<lparr>buf := buf b @ take (Available b) p\<rparr>"
  from 3 have e: "err ?b = None" by simp
  show ?case
  proof (cases "err (fst (bufio_Flush ?b))")
    case (Some e')
    with 3 show ?thesis by simp
  next
    case None
    from bufio_Flush_ok [OF e None] None 3 show ?thesis
      by (cases "Available b") auto
  qed
qed

declare bufio_Write.simps [simp del]

definition bufio_WriteString :: "bufio_Writer \<Rightarrow> string \<Rightarrow> bufio_Writer \<times> string option" where
  "bufio_WriteString b s = bufio_Write b s"

definition Fprintf :: "bufio_Writer \<Rightarrow> string \<Rightarrow> bufio_Writer \<times> string option" where
  "Fprintf b formatted = bufio_Write b formatted"

subsection \<open>Formatting\<close>

text \<open>The verb \<open>%d\<close> on an integer: its decimal digits, after a minus sign when negative.\<close>

function digits :: "nat \<Rightarrow> string" where
  "digits n =
    (if n < 10 then [''0123456789'' ! n]
     else digits (n div 10) @ [''0123456789'' ! (n mod 10)])"
  by pat_completeness auto
termination
  by (relation "measure id") auto

declare digits.simps [simp del]

definition format_d :: "int \<Rightarrow> string" where
  "format_d i = (if i < 0 then ''-'' @ digits (nat (- i)) else digits (nat i))"

text \<open>
  The verb \<open>%q\<close> on a timestamp in the layout RFC 3339, which has only digits, letters and
  the signs \<open>-\<close>, \<open>:\<close>, \<open>+\<close> and \<open>.\<close>: the text between double quotes.
\<close>

definition format_q :: "string \<Rightarrow> string" where
  \<open>format_q s = ''"'' @ s @ ''"''\<close>

subsection \<open>\<open>writeResultsStreaming\<close>\<close>

text \<open>
  What the writer takes from outside: what \<open>os.Create\<close> returns for a path (the text of an
  error, or the new empty file), what \<open>json.Marshal\<close> returns for a record (the text of an
  error, or its JSON text), the current time in the layout RFC 3339, and the seconds since
  the start of the run as the verb \<open>%.2f\<close> prints them.
\<close>

record writer_env =
  os_Create :: "string \<Rightarrow> string + os_File"
  json_Marshal :: "InvalidEmail \<Rightarrow> string + string"
  now_RFC3339 :: string
  seconds_since_start :: string

text \<open>
  src/main.go, lines 468-480: the loop over the records, with the index \<open>i\<close> and the length
  \<open>n\<close> of the whole list. The values that the write operations return are not looked at.
  The result is the writer and the error of \<open>json.Marshal\<close>, if any.
\<close>

fun write_invalid ::
  "writer_env \<Rightarrow> int \<Rightarrow> int \<Rightarrow> InvalidEmail list \<Rightarrow> bufio_Writer \<Rightarrow> bufio_Writer \<times> string option" where
  "write_invalid env n i [] writer = (writer, None)"
| "write_invalid env n i (e # es) writer =
    (case json_Marshal env e of
       Inl err' \<Rightarrow> (writer, Some err')
     | Inr emailJSON \<Rightarrow>
         (let writer = fst (bufio_WriteString writer ''    '');
              writer = fst (bufio_Write writer emailJSON);
              writer = (if i < n - 1 then fst (bufio_WriteString writer '','') else writer);
              writer = fst (bufio_WriteString writer ''\<newline>'')
          in write_invalid env n (i + 1) es writer))"

text \<open>
  src/main.go, lines 453-492. The result is the file as the call leaves it (none when it
  could not be created) and the error returned (\<open>None\<close> is \<open>nil\<close>). The deferred
  \<open>writer.Flush()\<close> runs before the deferred \<open>file.Close()\<close>; what they return is dropped.
\<close>

definition writeResultsStreaming ::
  "writer_env \<Rightarrow> string \<Rightarrow> InvalidEmail list \<Rightarrow> Stats \<Rightarrow> os_File option \<times> string option" where
  \<open>writeResultsStreaming env filename invalid st =
    (case os_Create env filename of
       Inl err' \<Rightarrow> (None, Some (''failed to create file '' @ filename @ '': '' @ err'))
     | Inr file \<Rightarrow>
         (let writer = NewWriterSize file (1024 * 1024);
              writer = fst (bufio_WriteString writer ''{\<newline>'');
              writer = fst (bufio_WriteString writer ''  "invalid_emails": [\<newline>'');
              (writer, failed) = write_invalid env (int (length invalid)) 0 invalid writer
          in case failed of
               Some err' \<Rightarrow>
                 (Some (wr (fst (bufio_Flush writer))),
                  Some (''failed to marshal email: '' @ err'))
             | None \<Rightarrow>
                 (let writer = fst (bufio_WriteString writer ''  ],\<newline>'');
                      writer = fst (Fprintf writer
                        (''  "checked_at": '' @ format_q (now_RFC3339 env) @ '',\<newline>''));
                      writer = fst (Fprintf writer
                        (''  "total_checked": '' @ format_d (sint (TotalChecked st))
                          @ '',\<newline>''));
                      writer = fst (Fprintf writer
                        (''  "total_valid": '' @ format_d (sint (TotalValid st))
                          @ '',\<newline>''));
                      writer = fst (Fprintf writer
                        (''  "total_invalid": '' @ format_d (sint (TotalInvalid st))
                          @ '',\<newline>''));
                      writer = fst (Fprintf writer
                        (''  "processing_time_seconds": '' @ seconds_since_start env
                          @ ''\<newline>''));
                      writer = fst (bufio_WriteString writer ''}\<newline>'')
                  in (Some (wr (fst (bufio_Flush writer))), None))))\<close>

subsection \<open>A concrete environment for the writer\<close>

text \<open>
  \<open>json.Marshal\<close> on a record whose strings need no escaping, and an environment in which
  only the default output path can be created, on a device with a given room.
\<close>

definition demo_marshal :: "InvalidEmail \<Rightarrow> string + string" where
  \<open>demo_marshal e = Inr (''{"email":"'' @ email e @ ''","reason":"'' @ reason e @ ''"}'')\<close>

definition demo_env :: "nat \<Rightarrow> writer_env" where
  "demo_env n =
    \<lparr>os_Create = (\<lambda>path.
       if path = ''data/invalid_emails.json'' then Inr \<lparr>data = [], room = n\<rparr>
       else Inl (''open '' @ path @ '': no such file or directory'')),
     json_Marshal = demo_marshal,
     now_RFC3339 = ''2025-12-30T10:16:40Z'',
     seconds_since_start = ''0.01''\<rparr>"


section \<open>The summary of \<open>main\<close>\<close>


section \<open>Verdict translation: properties\<close>

text \<open>
  C1. \<open>evaluateResult\<close> applies its rules in order and the first rule that matches decides:
  invalid syntax gives "invalid email syntax" whatever the other fields are; otherwise a
  disposable address gives "disposable email address"; otherwise a non-empty suggestion gives
  "possible typo, did you mean: " followed by the suggestion; otherwise a domain without MX
  records gives "domain has no MX records"; otherwise, when an SMTP sub-result is present, a
  missing host, then an undeliverable address, then a disabled mailbox are reported in that
  order; otherwise reachability "no" gives "email is not reachable"; otherwise the address is
  valid with an empty reason.
\<close>

theorem evaluateResult_rules:
  "(\<not> Valid (Syntax r) \<longrightarrow> evaluateResult r = (False, ''invalid email syntax''))
   \<and> (Valid (Syntax r) \<and> Disposable r \<longrightarrow>
        evaluateResult r = (False, ''disposable email address''))
   \<and> (Valid (Syntax r) \<and> \<not> Disposable r \<and> Suggestion r \<noteq> '''' \<longrightarrow>
        evaluateResult r = (False, ''possible typo, did you mean: '' @ Suggestion r))
   \<and> (Valid (Syntax r) \<and> \<not> Disposable r \<and> Suggestion r = '''' \<and> \<not> HasMxRecords r \<longrightarrow>
        evaluateResult r = (False, ''domain has no MX records''))
   \<and> (Valid (Syntax r) \<and> \<not> Disposable r \<and> Suggestion r = '''' \<and> HasMxRecords r \<longrightarrow>
        (\<forall>m. SMTP r = Some m \<and> \<not> HostExists m \<longrightarrow>
           evaluateResult r = (False, ''SMTP host does not exist''))
      \<and> (\<forall>m. SMTP r = Some m \<and> HostExists m \<and> \<not> Deliverable m \<longrightarrow>
           evaluateResult r = (False, ''email is not deliverable''))
      \<and> (\<forall>m. SMTP r = Some m \<and> HostExists m \<and> Deliverable m \<and> Disabled m \<longrightarrow>
           evaluateResult r = (False, ''mailbox is disabled''))
      \<and> (smtp_passes r \<and> Reachable r = ''no'' \<longrightarrow>
           evaluateResult r = (False, ''email is not reachable''))
      \<and> (smtp_passes r \<and> Reachable r \<noteq> ''no'' \<longrightarrow> evaluateResult r = (True, '''')))"
  by (cases "SMTP r") (simp_all add: evaluateResult_def smtp_passes_def)

theorem evaluateResult_rules_witness:
  "evaluateResult \<lparr>Syntax = \<lparr>Valid = False\<rparr>, Disposable = True, Suggestion = ''gmail.com'',
      HasMxRecords = False, SMTP = None, Reachable = ''no''\<rparr>
     = (False, ''invalid email syntax'')
   \<and> evaluateResult \<lparr>Syntax = \<lparr>Valid = True\<rparr>, Disposable = True, Suggestion = ''gmail.com'',
      HasMxRecords = False, SMTP = None, Reachable = ''no''\<rparr>
     = (False, ''disposable email address'')
   \<and> evaluateResult \<lparr>Syntax = \<lparr>Valid = True\<rparr>, Disposable = False, Suggestion = ''gmail.com'',
      HasMxRecords = False, SMTP = None, Reachable = ''no''\<rparr>
     = (False, ''possible typo, did you mean: gmail.com'')
   \<and> evaluateResult \<lparr>Syntax = \<lparr>Valid = True\<rparr>, Disposable = False, Suggestion = '''',
      HasMxRecords = False, SMTP = None, Reachable = ''no''\<rparr>
     = (False, ''domain has no MX records'')
   \<and> evaluateResult \<lparr>Syntax = \<lparr>Valid = True\<rparr>, Disposable = False, Suggestion = '''',
      HasMxRecords = True,
      SMTP = Some \<lparr>HostExists = False, Deliverable = False, Disabled = True\<rparr>,
      Reachable = ''no''\<rparr>
     = (False, ''SMTP host does not exist'')
   \<and> evaluateResult \<lparr>Syntax = \<lparr>Valid = True\<rparr>, Disposable = False, Suggestion = '''',
      HasMxRecords = True,
      SMTP = Some \<lparr>HostExists = True, Deliverable = False, Disabled = True\<rparr>,
      Reachable = ''no''\<rparr>
     = (False, ''email is not deliverable'')
   \<and> evaluateResult \<lparr>Syntax = \<lparr>Valid = True\<rparr>, Disposable = False, Suggestion = '''',
      HasMxRecords = True,
      SMTP = Some \<lparr>HostExists = True, Deliverable = True, Disabled = True\<rparr>,
      Reachable = ''no''\<rparr>
     = (False, ''mailbox is disabled'')
   \<and> evaluateResult \<lparr>Syntax = \<lparr>Valid = True\<rparr>, Disposable = False, Suggestion = '''',
      HasMxRecords = True,
      SMTP = Some \<lparr>HostExists = True, Deliverable = True, Disabled = False\<rparr>,
      Reachable = ''no''\<rparr>
     = (False, ''email is not reachable'')
   \<and> evaluateResult \<lparr>Syntax = \<lparr>Valid = True\<rparr>, Disposable = False, Suggestion = '''',
      HasMxRecords = True, SMTP = None, Reachable = ''no''\<rparr>
     = (False, ''email is not reachable'')
   \<and> evaluateResult \<lparr>Syntax = \<lparr>Valid = True\<rparr>, Disposable = False, Suggestion = '''',
      HasMxRecords = True,
      SMTP = Some \<lparr>HostExists = True, Deliverable = True, Disabled = False\<rparr>,
      Reachable = ''yes''\<rparr>
     = (True, '''')"
  using
    evaluateResult_rules [of "\<lparr>Syntax = \<lparr>Valid = False\<rparr>, Disposable = True,
      Suggestion = ''gmail.com'', HasMxRecords = False, SMTP = None, Reachable = ''no''\<rparr>"]
    evaluateResult_rules [of "\<lparr>Syntax = \<lparr>Valid = True\<rparr>, Disposable = True,
      Suggestion = ''gmail.com'', HasMxRecords = False, SMTP = None, Reachable = ''no''\<rparr>"]
    evaluateResult_rules [of "\<lparr>Syntax = \<lparr>Valid = True\<rparr>, Disposable = False,
      Suggestion = ''gmail.com'', HasMxRecords = False, SMTP = None, Reachable = ''no''\<rparr>"]
    evaluateResult_rules [of "\<lparr>Syntax = \<lparr>Valid = True\<rparr>, Disposable = False,
      Suggestion = '''', HasMxRecords = False, SMTP = None, Reachable = ''no''\<rparr>"]
    evaluateResult_rules [of "\<lparr>Syntax = \<lparr>Valid = True\<rparr>, Disposable = False,
      Suggestion = '''', HasMxRecords = True,
      SMTP = Some \<lparr>HostExists = False, Deliverable = False, Disabled = True\<rparr>,
      Reachable = ''no''\<rparr>"]
    evaluateResult_rules [of "\<lparr>Syntax = \<lparr>Valid = True\<rparr>, Disposable = False,
      Suggestion = '''', HasMxRecords = True,
      SMTP = Some \<lparr>HostExists = True, Deliverable = False, Disabled = True\<rparr>,
      Reachable = ''no''\<rparr>"]
    evaluateResult_rules [of "\<lparr>Syntax = \<lparr>Valid = True\<rparr>, Disposable = False,
      Suggestion = '''', HasMxRecords = True,
      SMTP = Some \<lparr>HostExists = True, Deliverable = True, Disabled = True\<rparr>,
      Reachable = ''no''\<rparr>"]
    evaluateResult_rules [of "\<lparr>Syntax = \<lparr>Valid = True\<rparr>, Disposable = False,
      Suggestion = '''', HasMxRecords = True,
      SMTP = Some \<lparr>HostExists = True, Deliverable = True, Disabled = False\<rparr>,
      Reachable = ''no''\<rparr>"]
    evaluateResult_rules [of "\<lparr>Syntax = \<lparr>Valid = True\<rparr>, Disposable = False,
      Suggestion = '''', HasMxRecords = True, SMTP = None, Reachable = ''no''\<rparr>"]
    evaluateResult_rules [of "\<lparr>Syntax = \<lparr>Valid = True\<rparr>, Disposable = False,
      Suggestion = '''', HasMxRecords = True,
      SMTP = Some \<lparr>HostExists = True, Deliverable = True, Disabled = False\<rparr>,
      Reachable = ''yes''\<rparr>"]
  by (simp add: smtp_passes_def)

section \<open>Workers: properties\<close>

lemma worker_map:
  "worker verifier config js = map (\<lambda>j. verifyEmail verifier (JobEmail j) (Verbose config)) js"
  by (induction js) simp_all

lemma demo_early_run:
  "exec demo_verifier demo_config (take 3 demo_schedule)
     (processEmails_start demo_emails demo_config new_Stats) = Some demo_early"
  by code_simp

text \<open>
  C2. When the verifier returns an error for an address, \<open>verifyEmail\<close> returns a result for
  that address that is not valid and whose reason is "verification error: " followed by the
  text of the error. The loop of a worker sends exactly one result for each job it receives,
  in the order of the jobs, and for a job on which the verifier fails that result is the
  invalid one above: no job is skipped and the loop goes on to the next job. In the
  pipeline, the step of a worker that receives such a job sets no panic and leaves the
  worker holding that invalid result, and its next step puts the result it holds, once, at
  the end of the result channel and takes the worker back to the head of its loop.
\<close>

theorem worker_adapter_error:
  "(\<forall>e err verbose. verifier e = Inl err \<longrightarrow>
      verifyEmail verifier e verbose
        = \<lparr>Email = e, IsValid = False, Reason = ''verification error: '' @ err\<rparr>)
   \<and> length (worker verifier config js) = length js
   \<and> (\<forall>i err. i < length js \<and> verifier (JobEmail (js ! i)) = Inl err \<longrightarrow>
        worker verifier config js ! i
          = \<lparr>Email = JobEmail (js ! i), IsValid = False,
             Reason = ''verification error: '' @ err\<rparr>)
   \<and> (\<forall>s i job rest err.
        i < length (workers s) \<and> workers s ! i = WRecv \<and> queue (jobs s) = job # rest
        \<and> verifier (JobEmail job) = Inl err \<longrightarrow>
        worker_step verifier config i s
          = Some (s\<lparr>jobs := (jobs s)\<lparr>queue := rest\<rparr>,
              workers := (workers s)
                [i := WSend \<lparr>Email = JobEmail job, IsValid = False,
                   Reason = ''verification error: '' @ err\<rparr>]\<rparr>))
   \<and> (\<forall>s i r.
        i < length (workers s) \<and> workers s ! i = WSend r \<and> \<not> closed (results s)
        \<and> length (queue (results s)) < nat (chan_size config) \<longrightarrow>
        worker_step verifier config i s
          = Some (s\<lparr>results := (results s)\<lparr>queue := queue (results s) @ [r]\<rparr>,
              workers := (workers s)[i := WRecv]\<rparr>))"
proof -
  have v: "verifyEmail verifier e verbose
        = \<lparr>Email = e, IsValid = False, Reason = ''verification error: '' @ err'\<rparr>"
    if "verifier e = Inl err'" for e err' verbose
    using that by (simp add: verifyEmail_def)
  have w: "worker verifier config js ! i
          = \<lparr>Email = JobEmail (js ! i), IsValid = False,
             Reason = ''verification error: '' @ err'\<rparr>"
    if "i < length js" "verifier (JobEmail (js ! i)) = Inl err'" for i err'
    using that by (simp add: worker_map v)
  have r: "worker_step verifier config i s
          = Some (s\<lparr>jobs := (jobs s)\<lparr>queue := rest\<rparr>,
              workers := (workers s)
                [i := WSend \<lparr>Email = JobEmail job, IsValid = False,
                   Reason = ''verification error: '' @ err'\<rparr>]\<rparr>)"
    if "i < length (workers s)" "workers s ! i = WRecv" "queue (jobs s) = job # rest"
      "verifier (JobEmail job) = Inl err'" for s i job rest err'
    using that by (simp add: worker_step_def chan_recv_def v)
  have t: "worker_step verifier config i s
          = Some (s\<lparr>results := (results s)\<lparr>queue := queue (results s) @ [r]\<rparr>,
              workers := (workers s)[i := WRecv]\<rparr>)"
    if "i < length (workers s)" "workers s ! i = WSend r" "\<not> closed (results s)"
      "length (queue (results s)) < nat (chan_size config)" for s i r
    using that by (simp add: worker_step_def chan_send_def)
  have l: "length (worker verifier config js) = length js" by (simp add: worker_map)
  from v w r t l show ?thesis by blast
qed

theorem worker_adapter_error_witness:
  "demo_verifier ''bad@example.com'' = Inl ''dial tcp: i/o timeout''
   \<and> verifyEmail demo_verifier ''bad@example.com'' False
      = \<lparr>Email = ''bad@example.com'', IsValid = False,
         Reason = ''verification error: dial tcp: i/o timeout''\<rparr>
   \<and> length (worker demo_verifier demo_config (all_jobs demo_emails)) = 2
   \<and> worker demo_verifier demo_config (all_jobs demo_emails) ! 1
      = \<lparr>Email = ''bad@example.com'', IsValid = False,
         Reason = ''verification error: dial tcp: i/o timeout''\<rparr>
   \<and> exec demo_verifier demo_config (take 3 demo_schedule)
       (processEmails_start demo_emails demo_config new_Stats) = Some demo_early
   \<and> worker_step demo_verifier demo_config 1 demo_early
      = Some (demo_early\<lparr>jobs := \<lparr>queue = [], closed = False\<rparr>,
          workers := [WSend \<lparr>Email = ''good@example.com'', IsValid = True, Reason = []\<rparr>,
            WSend \<lparr>Email = ''bad@example.com'', IsValid = False,
              Reason = ''verification error: dial tcp: i/o timeout''\<rparr>]\<rparr>)
   \<and> worker_step demo_verifier demo_config 0 demo_early
      = Some (demo_early\<lparr>results := \<lparr>queue =
            [\<lparr>Email = ''good@example.com'', IsValid = True, Reason = []\<rparr>], closed = False\<rparr>,
          workers := [WRecv, WRecv]\<rparr>)"
proof -
  have e: "demo_verifier ''bad@example.com'' = Inl ''dial tcp: i/o timeout''"
    by (simp add: demo_verifier_def)
  have j: "all_jobs demo_emails
      = [\<lparr>Index = 0, JobEmail = ''good@example.com''\<rparr>, \<lparr>Index = 1, JobEmail = ''bad@example.com''\<rparr>]"
    by (simp add: all_jobs_def demo_emails_def)
  note t = worker_adapter_error [of demo_verifier demo_config "all_jobs demo_emails"]
  from t e have v: "verifyEmail demo_verifier ''bad@example.com'' False
        = \<lparr>Email = ''bad@example.com'', IsValid = False,
           Reason = ''verification error: '' @ ''dial tcp: i/o timeout''\<rparr>"
    by blast
  from t have l: "length (worker demo_verifier demo_config (all_jobs demo_emails))
        = length (all_jobs demo_emails)"
    by blast
  from t have w: "1 < length (all_jobs demo_emails)
        \<and> demo_verifier (JobEmail (all_jobs demo_emails ! 1)) = Inl ''dial tcp: i/o timeout''
      \<longrightarrow> worker demo_verifier demo_config (all_jobs demo_emails) ! 1
          = \<lparr>Email = JobEmail (all_jobs demo_emails ! 1), IsValid = False,
             Reason = ''verification error: '' @ ''dial tcp: i/o timeout''\<rparr>"
    by blast
  from t have r: "1 < length (workers demo_early) \<and> workers demo_early ! 1 = WRecv
      \<and> queue (jobs demo_early) = \<lparr>Index = 1, JobEmail = ''bad@example.com''\<rparr> # []
      \<and> demo_verifier (JobEmail \<lparr>Index = 1, JobEmail = ''bad@example.com''\<rparr>)
        = Inl ''dial tcp: i/o timeout''
      \<longrightarrow> worker_step demo_verifier demo_config 1 demo_early
          = Some (demo_early\<lparr>jobs := (jobs demo_early)\<lparr>queue := []\<rparr>,
              workers := (workers demo_early)
                [1 := WSend \<lparr>Email = JobEmail \<lparr>Index = 1, JobEmail = ''bad@example.com''\<rparr>,
                   IsValid = False,
                   Reason = ''verification error: '' @ ''dial tcp: i/o timeout''\<rparr>]\<rparr>)"
    by blast
  from t have s: "0 < length (workers demo_early)
      \<and> workers demo_early ! 0
        = WSend \<lparr>Email = ''good@example.com'', IsValid = True, Reason = []\<rparr>
      \<and> \<not> closed (results demo_early)
      \<and> length (queue (results demo_early)) < nat (chan_size demo_config)
      \<longrightarrow> worker_step demo_verifier demo_config 0 demo_early
          = Some (demo_early\<lparr>results := (results demo_early)\<lparr>queue :=
                queue (results demo_early)
                  @ [\<lparr>Email = ''good@example.com'', IsValid = True, Reason = []\<rparr>]\<rparr>,
              workers := (workers demo_early)[0 := WRecv]\<rparr>)"
    by blast
  have c: "chan_size demo_config = 4" by (simp add: chan_size_def demo_config_def)
  from r e have r': "worker_step demo_verifier demo_config 1 demo_early
      = Some (demo_early\<lparr>jobs := \<lparr>queue = [], closed = False\<rparr>,
          workers := [WSend \<lparr>Email = ''good@example.com'', IsValid = True, Reason = []\<rparr>,
            WSend \<lparr>Email = ''bad@example.com'', IsValid = False,
              Reason = ''verification error: dial tcp: i/o timeout''\<rparr>]\<rparr>)"
    by (simp add: demo_early_def)
  from s c have s': "worker_step demo_verifier demo_config 0 demo_early
      = Some (demo_early\<lparr>results := \<lparr>queue =
            [\<lparr>Email = ''good@example.com'', IsValid = True, Reason = []\<rparr>], closed = False\<rparr>,
          workers := [WRecv, WRecv]\<rparr>)"
    by (simp add: demo_early_def)
  from e v l w have "verifyEmail demo_verifier ''bad@example.com'' False
      = \<lparr>Email = ''bad@example.com'', IsValid = False,
         Reason = ''verification error: dial tcp: i/o timeout''\<rparr>
   \<and> length (worker demo_verifier demo_config (all_jobs demo_emails)) = 2
   \<and> worker demo_verifier demo_config (all_jobs demo_emails) ! 1
      = \<lparr>Email = ''bad@example.com'', IsValid = False,
         Reason = ''verification error: dial tcp: i/o timeout''\<rparr>"
    unfolding j by simp
  with e demo_early_run r' s' show ?thesis by blast
qed

section \<open>The pipeline: invariants of every run\<close>

subsection \<open>The capacity of the channels\<close>

text \<open>
  Whenever a worker exists and \<open>make\<close> does not panic, both channels have a buffer of at
  least two places. A channel without a buffer occurs only in a pool without workers, where
  nothing can be received, and there a send blocks for ever, as a send to a full buffer of
  capacity zero does.
\<close>

lemma chan_size_buffered:
  assumes w: "0 < worker_count config" and c: "0 \<le> chan_size config"
  shows "2 \<le> chan_size config"
proof -
  let ?w = "sint (Workers config)"
  from w have pos: "0 < ?w" by (simp add: worker_count_def)
  have up: "?w < 2 ^ 63" using sint_lt [of "Workers config"] by simp
  have eq: "chan_size config = signed_take_bit 63 (?w * 2)"
    by (simp add: chan_size_def sint_word_ariths)
  show ?thesis
  proof (cases "?w * 2 < 2 ^ 63")
    case True
    with pos have "signed_take_bit 63 (?w * 2) = ?w * 2"
      by (intro signed_take_bit_int_eq_self) simp_all
    with eq pos show ?thesis by simp
  next
    case False
    then have "signed_take_bit 63 (?w * 2) \<le> ?w * 2 - 2 ^ Suc 63"
      by (intro signed_take_bit_int_less_eq) simp
    then have "chan_size config \<le> ?w * 2 - 18446744073709551616"
      unfolding eq by simp
    moreover from up have "?w * 2 < 18446744073709551616" by simp
    ultimately show ?thesis using c by linarith
  qed
qed

subsection \<open>The steps of a run, case by case\<close>

lemma stepE [consumes 1, case_names send_job send_job_panic close_jobs close_jobs_panic
    wait_workers close_results close_results_panic wait_collector
    recv_job worker_exit send_result send_result_panic collect collect_panic collector_exit]:
  assumes "step verifier config a s = Some s'"
  obtains
    (send_job) job rest where "panicked s = None" "a = Driver" "driver s = DSend" "todo s = job # rest"
      "\<not> closed (jobs s)" "length (queue (jobs s)) < nat (chan_size config)"
      "s' = s\<lparr>jobs := (jobs s)\<lparr>queue := queue (jobs s) @ [job]\<rparr>, todo := rest\<rparr>"
  | (send_job_panic) job rest where "panicked s = None" "a = Driver" "driver s = DSend" "todo s = job # rest"
      "closed (jobs s)" "s' = s\<lparr>panicked := Some SendOnClosed\<rparr>"
  | (close_jobs) "panicked s = None" "a = Driver" "driver s = DSend" "todo s = []" "\<not> closed (jobs s)"
      "s' = s\<lparr>jobs := (jobs s)\<lparr>closed := True\<rparr>, driver := DWaitWorkers\<rparr>"
  | (close_jobs_panic) "panicked s = None" "a = Driver" "driver s = DSend" "todo s = []" "closed (jobs s)"
      "s' = s\<lparr>panicked := Some CloseOfClosed\<rparr>"
  | (wait_workers) "panicked s = None" "a = Driver" "driver s = DWaitWorkers"
      "list_all (\<lambda>w. w = WExited) (workers s)" "s' = s\<lparr>driver := DCloseResults\<rparr>"
  | (close_results) "panicked s = None" "a = Driver" "driver s = DCloseResults" "\<not> closed (results s)"
      "s' = s\<lparr>results := (results s)\<lparr>closed := True\<rparr>, driver := DWaitCollector\<rparr>"
  | (close_results_panic) "panicked s = None" "a = Driver" "driver s = DCloseResults"
      "closed (results s)" "s' = s\<lparr>panicked := Some CloseOfClosed\<rparr>"
  | (wait_collector) "panicked s = None" "a = Driver" "driver s = DWaitCollector" "collector s = CExited"
      "s' = s\<lparr>driver := DReturned\<rparr>"
  | (recv_job) i job rest where "panicked s = None" "a = Worker i" "i < length (workers s)"
      "workers s ! i = WRecv" "queue (jobs s) = job # rest"
      "s' = s\<lparr>jobs := (jobs s)\<lparr>queue := rest\<rparr>,
         workers := (workers s)[i := WSend (verifyEmail verifier (JobEmail job) (Verbose config))]\<rparr>"
  | (worker_exit) i where "panicked s = None" "a = Worker i" "i < length (workers s)"
      "workers s ! i = WRecv" "queue (jobs s) = []" "closed (jobs s)"
      "s' = s\<lparr>workers := (workers s)[i := WExited]\<rparr>"
  | (send_result) i r where "panicked s = None" "a = Worker i" "i < length (workers s)"
      "workers s ! i = WSend r" "\<not> closed (results s)"
      "length (queue (results s)) < nat (chan_size config)"
      "s' = s\<lparr>results := (results s)\<lparr>queue := queue (results s) @ [r]\<rparr>,
         workers := (workers s)[i := WRecv]\<rparr>"
  | (send_result_panic) i r where "panicked s = None" "a = Worker i" "i < length (workers s)"
      "workers s ! i = WSend r" "closed (results s)" "s' = s\<lparr>panicked := Some SendOnClosed\<rparr>"
  | (collect) r rest where "panicked s = None" "a = Collector" "collector s = CRecv"
      "queue (results s) = r # rest" "BatchSize config \<noteq> 0"
      "s' = s\<lparr>results := (results s)\<lparr>queue := rest\<rparr>,
         stats := fst (collect r (stats s, invalidEmails s)),
         invalidEmails := snd (collect r (stats s, invalidEmails s))\<rparr>"
  | (collect_panic) r rest where "panicked s = None" "a = Collector" "collector s = CRecv"
      "queue (results s) = r # rest" "BatchSize config = 0"
      "s' = s\<lparr>results := (results s)\<lparr>queue := rest\<rparr>,
         stats := fst (collect r (stats s, invalidEmails s)),
         invalidEmails := snd (collect r (stats s, invalidEmails s)),
         panicked := Some DivideByZero\<rparr>"
  | (collector_exit) "panicked s = None" "a = Collector" "collector s = CRecv"
      "queue (results s) = []" "closed (results s)" "s' = s\<lparr>collector := CExited\<rparr>"
proof (cases a)
  case Driver
  with assms have p: "panicked s = None" and d: "driver_step config s = Some s'"
    by (simp_all add: step_def split: if_splits)
  show ?thesis
  proof (cases "driver s")
    case DSend
    show ?thesis
    proof (cases "todo s")
      case Nil
      show ?thesis
      proof (cases "closed (jobs s)")
        case True
        with Nil DSend d have "s' = s\<lparr>panicked := Some CloseOfClosed\<rparr>"
          by (simp add: driver_step_def chan_close_def)
        with p Driver DSend Nil True show ?thesis by (rule close_jobs_panic)
      next
        case False
        with Nil DSend d
        have "s' = s\<lparr>jobs := (jobs s)\<lparr>closed := True\<rparr>, driver := DWaitWorkers\<rparr>"
          by (simp add: driver_step_def chan_close_def)
        with p Driver DSend Nil False show ?thesis by (rule close_jobs)
      qed
    next
      case (Cons job rest)
      show ?thesis
      proof (cases "closed (jobs s)")
        case True
        with Cons DSend d have "s' = s\<lparr>panicked := Some SendOnClosed\<rparr>"
          by (simp add: driver_step_def chan_send_def)
        with p Driver DSend Cons True show ?thesis by (rule send_job_panic)
      next
        case False
        with Cons DSend d have room: "length (queue (jobs s)) < nat (chan_size config)"
          by (simp add: driver_step_def chan_send_def split: if_splits)
        with False Cons DSend d
        have "s' = s\<lparr>jobs := (jobs s)\<lparr>queue := queue (jobs s) @ [job]\<rparr>, todo := rest\<rparr>"
          by (simp add: driver_step_def chan_send_def)
        with p Driver DSend Cons False room show ?thesis by (rule send_job)
      qed
    qed
  next
    case DWaitWorkers
    with d have all: "list_all (\<lambda>w. w = WExited) (workers s)"
      by (simp add: driver_step_def split: if_splits)
    with DWaitWorkers d have "s' = s\<lparr>driver := DCloseResults\<rparr>"
      by (simp add: driver_step_def)
    with p Driver DWaitWorkers all show ?thesis by (rule wait_workers)
  next
    case DCloseResults
    show ?thesis
    proof (cases "closed (results s)")
      case True
      with DCloseResults d have "s' = s\<lparr>panicked := Some CloseOfClosed\<rparr>"
        by (simp add: driver_step_def chan_close_def)
      with p Driver DCloseResults True show ?thesis by (rule close_results_panic)
    next
      case False
      with DCloseResults d
      have "s' = s\<lparr>results := (results s)\<lparr>closed := True\<rparr>, driver := DWaitCollector\<rparr>"
        by (simp add: driver_step_def chan_close_def)
      with p Driver DCloseResults False show ?thesis by (rule close_results)
    qed
  next
    case DWaitCollector
    with d have c: "collector s = CExited"
      by (simp add: driver_step_def split: if_splits)
    with DWaitCollector d have "s' = s\<lparr>driver := DReturned\<rparr>"
      by (simp add: driver_step_def)
    with p Driver DWaitCollector c show ?thesis by (rule wait_collector)
  next
    case DReturned
    with d show ?thesis by (simp add: driver_step_def)
  qed
next
  case (Worker i)
  with assms have p: "panicked s = None" and w: "worker_step verifier config i s = Some s'"
    by (simp_all add: step_def split: if_splits)
  from w have i: "i < length (workers s)"
    by (simp add: worker_step_def split: if_splits)
  show ?thesis
  proof (cases "workers s ! i")
    case WRecv
    show ?thesis
    proof (cases "queue (jobs s)")
      case Nil
      with WRecv w i have cl: "closed (jobs s)"
        by (simp add: worker_step_def chan_recv_def split: if_splits)
      with Nil WRecv w i have "s' = s\<lparr>workers := (workers s)[i := WExited]\<rparr>"
        by (simp add: worker_step_def chan_recv_def)
      with p Worker i WRecv Nil cl show ?thesis by (rule worker_exit)
    next
      case (Cons job rest)
      with WRecv w i
      have "s' = s\<lparr>jobs := (jobs s)\<lparr>queue := rest\<rparr>,
         workers := (workers s)[i := WSend (verifyEmail verifier (JobEmail job) (Verbose config))]\<rparr>"
        by (simp add: worker_step_def chan_recv_def)
      with p Worker i WRecv Cons show ?thesis by (rule recv_job)
    qed
  next
    case (WSend r)
    show ?thesis
    proof (cases "closed (results s)")
      case True
      with WSend w i have "s' = s\<lparr>panicked := Some SendOnClosed\<rparr>"
        by (simp add: worker_step_def chan_send_def)
      with p Worker i WSend True show ?thesis by (rule send_result_panic)
    next
      case False
      with WSend w i have room: "length (queue (results s)) < nat (chan_size config)"
        by (simp add: worker_step_def chan_send_def split: if_splits)
      with False WSend w i
      have "s' = s\<lparr>results := (results s)\<lparr>queue := queue (results s) @ [r]\<rparr>,
         workers := (workers s)[i := WRecv]\<rparr>"
        by (simp add: worker_step_def chan_send_def)
      with p Worker i WSend False room show ?thesis by (rule send_result)
    qed
  next
    case WExited
    with w i show ?thesis by (simp add: worker_step_def)
  qed
next
  case Collector
  with assms have p: "panicked s = None" and c: "collector_step config s = Some s'"
    by (simp_all add: step_def split: if_splits)
  show ?thesis
  proof (cases "collector s")
    case CRecv
    show ?thesis
    proof (cases "queue (results s)")
      case Nil
      with CRecv c have cl: "closed (results s)"
        by (simp add: collector_step_def chan_recv_def split: if_splits)
      with Nil CRecv c have "s' = s\<lparr>collector := CExited\<rparr>"
        by (simp add: collector_step_def chan_recv_def)
      with p Collector CRecv Nil cl show ?thesis by (rule collector_exit)
    next
      case (Cons r rest)
      show ?thesis
      proof (cases "BatchSize config = 0")
        case True
        with Cons CRecv c
        have "s' = s\<lparr>results := (results s)\<lparr>queue := rest\<rparr>,
           stats := fst (collect r (stats s, invalidEmails s)),
           invalidEmails := snd (collect r (stats s, invalidEmails s)),
           panicked := Some DivideByZero\<rparr>"
          by (simp add: collector_step_def chan_recv_def Let_def split_beta)
        with p Collector CRecv Cons True show ?thesis by (rule collect_panic)
      next
        case False
        with Cons CRecv c
        have "s' = s\<lparr>results := (results s)\<lparr>queue := rest\<rparr>,
           stats := fst (collect r (stats s, invalidEmails s)),
           invalidEmails := snd (collect r (stats s, invalidEmails s))\<rparr>"
          by (simp add: collector_step_def chan_recv_def Let_def split_beta)
        with p Collector CRecv Cons False show ?thesis by (rule collect)
      qed
    qed
  next
    case CExited
    with c show ?thesis by (simp add: collector_step_def)
  qed
qed


lemma not_all_exited:
  "i < length ws \<Longrightarrow> ws ! i \<noteq> WExited \<Longrightarrow> \<not> list_all (\<lambda>w. w = WExited) ws"
  by (auto simp: list_all_length)

lemma exited_in_update:
  "WExited \<in> set (ws[i := w]) \<Longrightarrow> w \<noteq> WExited \<Longrightarrow> WExited \<in> set ws"
  using set_update_subset_insert [of ws i w] by auto

lemma shutdown_order_start:
  "shutdown_order (processEmails_start emails config st)"
  by (simp add: shutdown_order_def processEmails_start_def make_chan_def list_all_iff)

lemma shutdown_order_step:
  assumes inv: "shutdown_order s" and st: "step verifier config a s = Some s'"
  shows "shutdown_order s'"
  using st
proof (cases rule: stepE)
  case (send_job job rest)
  with inv show ?thesis by (auto simp: shutdown_order_def)
next
  case (send_job_panic job rest)
  with inv show ?thesis by (auto simp: shutdown_order_def)
next
  case close_jobs
  with inv show ?thesis by (auto simp: shutdown_order_def)
next
  case close_jobs_panic
  with inv show ?thesis by (auto simp: shutdown_order_def)
next
  case wait_workers
  with inv show ?thesis by (auto simp: shutdown_order_def)
next
  case close_results
  with inv show ?thesis by (auto simp: shutdown_order_def)
next
  case close_results_panic
  with inv show ?thesis by (auto simp: shutdown_order_def)
next
  case wait_collector
  with inv show ?thesis by (auto simp: shutdown_order_def)
next
  case (recv_job i job rest)
  from recv_job(3,4) have busy: "\<not> list_all (\<lambda>w. w = WExited) (workers s)"
    by (simp add: not_all_exited)
  have none: "WExited \<notin> set ((workers s)[i := WSend (verifyEmail verifier (JobEmail job) (Verbose config))])"
    using inv recv_job(5) by (auto simp: shutdown_order_def dest: exited_in_update)
  from inv busy none recv_job show ?thesis by (auto simp: shutdown_order_def)
next
  case (worker_exit i)
  from worker_exit(3,4) have busy: "\<not> list_all (\<lambda>w. w = WExited) (workers s)"
    by (simp add: not_all_exited)
  from inv busy worker_exit show ?thesis by (auto simp: shutdown_order_def)
next
  case (send_result i r)
  from send_result(3,4) have busy: "\<not> list_all (\<lambda>w. w = WExited) (workers s)"
    by (simp add: not_all_exited)
  have ex: "WExited \<in> set ((workers s)[i := WRecv]) \<Longrightarrow> WExited \<in> set (workers s)"
    by (erule exited_in_update) simp
  from inv busy send_result ex show ?thesis by (auto simp: shutdown_order_def)
next
  case (send_result_panic i r)
  from send_result_panic(3,4) have busy: "\<not> list_all (\<lambda>w. w = WExited) (workers s)"
    by (simp add: not_all_exited)
  from inv busy send_result_panic show ?thesis by (auto simp: shutdown_order_def)
next
  case (collect r rest)
  with inv show ?thesis by (auto simp: shutdown_order_def)
next
  case (collect_panic r rest)
  with inv show ?thesis by (auto simp: shutdown_order_def)
next
  case collector_exit
  with inv show ?thesis by (auto simp: shutdown_order_def)
qed

lemma shutdown_order_exec:
  "shutdown_order s \<Longrightarrow> exec verifier config sched s = Some s' \<Longrightarrow> shutdown_order s'"
  by (induction sched arbitrary: s) (auto split: option.splits dest: shutdown_order_step)


lemma held_update:
  "i < length ws \<Longrightarrow>
    sum_list (map held (ws[i := w])) + held (ws ! i) = sum_list (map held ws) + held w"
proof (induction ws arbitrary: i)
  case Nil
  then show ?case by simp
next
  case (Cons x xs)
  show ?case
  proof (cases i)
    case 0
    then show ?thesis by (simp add: ac_simps)
  next
    case (Suc k)
    with Cons.prems have "k < length xs" by simp
    from Cons.IH [OF this] Suc show ?thesis by (simp add: ac_simps)
  qed
qed

lemma in_flight_step:
  assumes st: "step verifier config a s = Some s'"
  shows "in_flight verifier config s' = in_flight verifier config s
       \<and> stats s' = stats s \<and> invalidEmails s' = invalidEmails s
     \<or> (\<exists>r. in_flight verifier config s = in_flight verifier config s' + {#r#}
           \<and> (stats s', invalidEmails s') = collect r (stats s, invalidEmails s))"
  using st
proof (cases rule: stepE)
  case (recv_job i job rest)
  from held_update [OF recv_job(3), of "WSend (verifyEmail verifier (JobEmail job) (Verbose config))"]
    recv_job
  show ?thesis by (simp add: in_flight_def outcome_def ac_simps)
next
  case (worker_exit i)
  from held_update [OF worker_exit(3), of WExited] worker_exit
  show ?thesis by (simp add: in_flight_def)
next
  case (send_result i r)
  from held_update [OF send_result(3), of WRecv] send_result
  show ?thesis by (simp add: in_flight_def ac_simps)
next
  case (collect r rest)
  then show ?thesis by (simp add: in_flight_def)
next
  case (collect_panic r rest)
  then show ?thesis by (simp add: in_flight_def)
qed (simp_all add: in_flight_def)


lemma all_jobs_emails: "map JobEmail (all_jobs emails) = emails"
proof -
  have "JobEmail \<circ> (\<lambda>(i, e). \<lparr>Index = i, JobEmail = e\<rparr>) = snd"
    by (auto simp: fun_eq_iff)
  then show ?thesis by (simp add: all_jobs_def map_snd_enumerate)
qed

lemma all_jobs_outcomes:
  "map (\<lambda>j. outcome verifier config (JobEmail j)) (all_jobs emails)
    = map (outcome verifier config) emails"
proof -
  have "map (\<lambda>j. outcome verifier config (JobEmail j)) (all_jobs emails)
    = map (outcome verifier config) (map JobEmail (all_jobs emails))"
    by (simp add: comp_def)
  then show ?thesis by (simp only: all_jobs_emails)
qed

lemma no_result_held: "sum_list (replicate n ({#} :: EmailResult multiset)) = {#}"
  by (induction n) simp_all

lemma in_flight_start:
  "in_flight verifier config (processEmails_start emails config st)
    = mset (map (outcome verifier config) emails)"
  by (simp add: in_flight_def processEmails_start_def make_chan_def all_jobs_outcomes
      no_result_held del: mset_map)

lemma accounted_start:
  "accounted verifier config emails (processEmails_start emails config new_Stats)"
proof -
  have "stats (processEmails_start emails config new_Stats) = new_Stats"
    "invalidEmails (processEmails_start emails config new_Stats) = []"
    by (simp_all add: processEmails_start_def)
  then have "mset (map (outcome verifier config) emails)
      = in_flight verifier config (processEmails_start emails config new_Stats) + {#}
    \<and> TotalChecked (stats (processEmails_start emails config new_Stats))
      = TotalValid (stats (processEmails_start emails config new_Stats))
        + TotalInvalid (stats (processEmails_start emails config new_Stats))
    \<and> TotalInvalid (stats (processEmails_start emails config new_Stats))
      = of_nat (length (invalidEmails (processEmails_start emails config new_Stats)))
    \<and> TotalValid (stats (processEmails_start emails config new_Stats))
      = of_nat (size (filter_mset IsValid ({#} :: EmailResult multiset)))
    \<and> mset (invalidEmails (processEmails_start emails config new_Stats))
      = image_mset invalid_of (filter_mset (\<lambda>r. \<not> IsValid r) {#})"
    by (simp add: in_flight_start new_Stats_def del: mset_map)
  then show ?thesis unfolding accounted_def by blast
qed

lemma accounted_step:
  assumes inv: "accounted verifier config emails s"
    and st: "step verifier config a s = Some s'"
  shows "accounted verifier config emails s'"
proof -
  from inv obtain counted where
    outs: "mset (map (outcome verifier config) emails) = in_flight verifier config s + counted"
    and chk: "TotalChecked (stats s) = TotalValid (stats s) + TotalInvalid (stats s)"
    and inv_len: "TotalInvalid (stats s) = of_nat (length (invalidEmails s))"
    and val: "TotalValid (stats s) = of_nat (size (filter_mset IsValid counted))"
    and lst: "mset (invalidEmails s) =
           image_mset invalid_of (filter_mset (\<lambda>r. \<not> IsValid r) counted)"
    unfolding accounted_def by blast
  from in_flight_step [OF st]
  consider
    (same) "in_flight verifier config s' = in_flight verifier config s"
      "stats s' = stats s" "invalidEmails s' = invalidEmails s"
  | (collected) r where "in_flight verifier config s = in_flight verifier config s' + {#r#}"
      "(stats s', invalidEmails s') = collect r (stats s, invalidEmails s)"
    by blast
  then show ?thesis
  proof cases
    case same
    with outs chk inv_len val lst show ?thesis unfolding accounted_def by auto
  next
    case (collected r)
    from outs collected(1)
    have outs': "mset (map (outcome verifier config) emails)
        = in_flight verifier config s' + (counted + {#r#})"
      by (simp del: mset_map)
    show ?thesis
    proof (cases "IsValid r")
      case True
      with collected(2) have new: "stats s' = (stats s)\<lparr>TotalValid := TotalValid (stats s) + 1,
            TotalChecked := TotalChecked (stats s) + 1\<rparr>"
          "invalidEmails s' = invalidEmails s"
        by (simp_all add: collect_def)
      from chk inv_len val lst new True
      have "TotalChecked (stats s') = TotalValid (stats s') + TotalInvalid (stats s')
        \<and> TotalInvalid (stats s') = of_nat (length (invalidEmails s'))
        \<and> TotalValid (stats s') = of_nat (size (filter_mset IsValid (counted + {#r#})))
        \<and> mset (invalidEmails s') =
           image_mset invalid_of (filter_mset (\<lambda>r. \<not> IsValid r) (counted + {#r#}))"
        by simp
      with outs' show ?thesis unfolding accounted_def by blast
    next
      case False
      with collected(2) have new: "stats s' = (stats s)\<lparr>TotalInvalid := TotalInvalid (stats s) + 1,
            TotalChecked := TotalChecked (stats s) + 1\<rparr>"
          "invalidEmails s' = invalidEmails s @ [\<lparr>email = Email r, reason = Reason r\<rparr>]"
        by (simp_all add: collect_def)
      from chk inv_len val lst new False
      have "TotalChecked (stats s') = TotalValid (stats s') + TotalInvalid (stats s')
        \<and> TotalInvalid (stats s') = of_nat (length (invalidEmails s'))
        \<and> TotalValid (stats s') = of_nat (size (filter_mset IsValid (counted + {#r#})))
        \<and> mset (invalidEmails s') =
           image_mset invalid_of (filter_mset (\<lambda>r. \<not> IsValid r) (counted + {#r#}))"
        by (simp add: invalid_of_def)
      with outs' show ?thesis unfolding accounted_def by blast
    qed
  qed
qed

lemma accounted_exec:
  "accounted verifier config emails s \<Longrightarrow> exec verifier config sched s = Some s' \<Longrightarrow>
    accounted verifier config emails s'"
  by (induction sched arbitrary: s) (auto split: option.splits dest: accounted_step)

lemma sint_of_nat_small:
  "n < 2 ^ 63 \<Longrightarrow> sint (of_nat n :: 64 word) = int n"
  by (simp add: signed_of_nat signed_take_bit_int_eq_self)

lemma workers_length_step:
  assumes "step verifier config a s = Some s'"
  shows "length (workers s') = length (workers s)"
  using assms by (cases rule: stepE) simp_all

lemma workers_length_exec:
  "exec verifier config sched s = Some s' \<Longrightarrow> length (workers s') = length (workers s)"
  by (induction sched arbitrary: s) (auto split: option.splits dest: workers_length_step)

lemma all_exited_held: "list_all (\<lambda>w. w = WExited) ws \<Longrightarrow> sum_list (map held ws) = {#}"
  by (induction ws) simp_all

lemma returned_drained:
  assumes inv: "shutdown_order s" and ret: "driver s = DReturned" and ws: "workers s \<noteq> []"
  shows "in_flight verifier config s = {#}"
proof -
  from inv ret have res: "closed (results s)" "queue (results s) = []"
    unfolding shutdown_order_def by blast+
  with inv have ex: "list_all (\<lambda>w. w = WExited) (workers s)"
    unfolding shutdown_order_def by blast
  with ws have "WExited \<in> set (workers s)"
    by (cases "workers s") simp_all
  with inv have "closed (jobs s)" "queue (jobs s) = []" "todo s = []"
    unfolding shutdown_order_def by blast+
  then show ?thesis
    using res all_exited_held [OF ex] by (simp add: in_flight_def)
qed

lemma reachable_invariants:
  assumes "exec verifier config sched (processEmails_start emails config new_Stats) = Some s"
  shows "shutdown_order s" and "accounted verifier config emails s"
    and "length (workers s) = worker_count config"
proof -
  from assms show "shutdown_order s"
    by (rule shutdown_order_exec [OF shutdown_order_start])
  from assms show "accounted verifier config emails s"
    by (rule accounted_exec [OF accounted_start])
  from workers_length_exec [OF assms] show "length (workers s) = worker_count config"
    by (simp add: processEmails_start_def)
qed

lemma completed_counted:
  assumes run: "exec verifier config sched (processEmails_start emails config new_Stats) = Some s"
    and fin: "completed s"
    and ok: "0 < sint (Workers config) \<or> emails = []"
  shows "TotalValid (stats s)
      = of_nat (length (filter IsValid (map (outcome verifier config) emails)))"
    and "mset (invalidEmails s)
      = mset (map invalid_of (filter (\<lambda>r. \<not> IsValid r) (map (outcome verifier config) emails)))"
proof -
  note inv = reachable_invariants [OF run]
  from inv(2) obtain counted where
    outs: "mset (map (outcome verifier config) emails) = in_flight verifier config s + counted"
    and val: "TotalValid (stats s) = of_nat (size (filter_mset IsValid counted))"
    and lst: "mset (invalidEmails s) =
           image_mset invalid_of (filter_mset (\<lambda>r. \<not> IsValid r) counted)"
    unfolding accounted_def by blast
  have "in_flight verifier config s = {#}"
  proof (cases "emails = []")
    case True
    with outs show ?thesis by simp
  next
    case False
    with ok inv(3) have "workers s \<noteq> []"
      by (auto simp: worker_count_def)
    with inv(1) fin show ?thesis
      by (simp add: returned_drained completed_def)
  qed
  with outs have c: "counted = mset (map (outcome verifier config) emails)"
    by simp
  have f: "filter_mset P (mset (map (outcome verifier config) emails))
      = mset (filter P (map (outcome verifier config) emails))" for P
    by (simp only: mset_filter)
  from val show "TotalValid (stats s)
      = of_nat (length (filter IsValid (map (outcome verifier config) emails)))"
    unfolding c f by (simp only: size_mset)
  from lst show "mset (invalidEmails s)
      = mset (map invalid_of (filter (\<lambda>r. \<not> IsValid r) (map (outcome verifier config) emails)))"
    unfolding c f by (simp only: mset_map)
qed

text \<open>The collector on any sequence of results, taken in order.\<close>

lemma fold_collect:
  "TotalValid (fst (fold collect rs (st, acc)))
      = TotalValid st + of_nat (length (filter IsValid rs))
   \<and> TotalInvalid (fst (fold collect rs (st, acc)))
      = TotalInvalid st + of_nat (length (filter (\<lambda>r. \<not> IsValid r) rs))
   \<and> TotalChecked (fst (fold collect rs (st, acc))) = TotalChecked st + of_nat (length rs)
   \<and> snd (fold collect rs (st, acc)) = acc @ map invalid_of (filter (\<lambda>r. \<not> IsValid r) rs)"
proof (induction rs arbitrary: st acc)
  case Nil
  show ?case by simp
next
  case (Cons r rs)
  show ?case
  proof (cases "IsValid r")
    case True
    then have "collect r (st, acc)
        = (st\<lparr>TotalValid := TotalValid st + 1, TotalChecked := TotalChecked st + 1\<rparr>, acc)"
      by (simp add: collect_def)
    with True Cons.IH [of "st\<lparr>TotalValid := TotalValid st + 1,
        TotalChecked := TotalChecked st + 1\<rparr>" acc]
    show ?thesis by (simp add: algebra_simps)
  next
    case False
    then have "collect r (st, acc)
        = (st\<lparr>TotalInvalid := TotalInvalid st + 1, TotalChecked := TotalChecked st + 1\<rparr>,
           acc @ [invalid_of r])"
      by (simp add: collect_def invalid_of_def)
    with False Cons.IH [of "st\<lparr>TotalInvalid := TotalInvalid st + 1,
        TotalChecked := TotalChecked st + 1\<rparr>" "acc @ [invalid_of r]"]
    show ?thesis by (simp add: algebra_simps)
  qed
qed

lemma collected_prefix:
  shows "TotalChecked (fst (fold collect rs (new_Stats, [])))
      = TotalValid (fst (fold collect rs (new_Stats, [])))
        + TotalInvalid (fst (fold collect rs (new_Stats, [])))"
  and "TotalInvalid (fst (fold collect rs (new_Stats, [])))
      = of_nat (length (snd (fold collect rs (new_Stats, []))))"
  and "snd (fold collect rs (new_Stats, [])) = map invalid_of (filter (\<lambda>r. \<not> IsValid r) rs)"
proof -
  note f = fold_collect [of rs new_Stats "[]"]
  have "length rs = length (filter IsValid rs) + length (filter (\<lambda>r. \<not> IsValid r) rs)"
    using sum_length_filter_compl [of IsValid rs] by simp
  then have "(of_nat (length rs) :: 64 word)
      = of_nat (length (filter IsValid rs)) + of_nat (length (filter (\<lambda>r. \<not> IsValid r) rs))"
    by (simp only: of_nat_add)
  with f show "TotalChecked (fst (fold collect rs (new_Stats, [])))
      = TotalValid (fst (fold collect rs (new_Stats, [])))
        + TotalInvalid (fst (fold collect rs (new_Stats, [])))"
    by (simp add: new_Stats_def)
  from f show "TotalInvalid (fst (fold collect rs (new_Stats, [])))
      = of_nat (length (snd (fold collect rs (new_Stats, []))))"
    by (simp add: new_Stats_def)
  from f show "snd (fold collect rs (new_Stats, []))
      = map invalid_of (filter (\<lambda>r. \<not> IsValid r) rs)"
    by simp
qed

subsection \<open>What a run verifies and collects\<close>

text \<open>
  Every step conserves the jobs and the results: a job leaves the dispatch loop and the job
  channel only when a worker verifies it, the outcome that the worker then holds reaches
  the result channel, and leaves it only when the collector processes it.
\<close>

lemma trace_step:
  assumes st: "step verifier config a s = Some s'"
  shows "mset (todo s) + mset (queue (jobs s))
      = mset (todo s') + mset (queue (jobs s')) + mset (taken s s')"
    and "sum_list (map held (workers s)) + mset (queue (results s))
        + mset (map (\<lambda>j. outcome verifier config (JobEmail j)) (taken s s'))
      = sum_list (map held (workers s')) + mset (queue (results s')) + mset (delivered s s')"
    and "(stats s', invalidEmails s') = fold collect (delivered s s') (stats s, invalidEmails s)"
proof -
  have "mset (todo s) + mset (queue (jobs s))
      = mset (todo s') + mset (queue (jobs s')) + mset (taken s s')
    \<and> sum_list (map held (workers s)) + mset (queue (results s))
        + mset (map (\<lambda>j. outcome verifier config (JobEmail j)) (taken s s'))
      = sum_list (map held (workers s')) + mset (queue (results s')) + mset (delivered s s')
    \<and> (stats s', invalidEmails s') = fold collect (delivered s s') (stats s, invalidEmails s)"
    using st
  proof (cases rule: stepE)
    case (recv_job i job rest)
    from held_update [OF recv_job(3), of "WSend (verifyEmail verifier (JobEmail job) (Verbose config))"]
      recv_job
    show ?thesis by (simp add: taken_def delivered_def outcome_def ac_simps)
  next
    case (worker_exit i)
    from held_update [OF worker_exit(3), of WExited] worker_exit
    show ?thesis by (simp add: taken_def delivered_def)
  next
    case (send_result i r)
    from held_update [OF send_result(3), of WRecv] send_result
    show ?thesis by (simp add: taken_def delivered_def ac_simps)
  next
    case (collect r rest)
    then show ?thesis by (simp add: taken_def delivered_def)
  next
    case (collect_panic r rest)
    then show ?thesis by (simp add: taken_def delivered_def)
  qed (simp_all add: taken_def delivered_def)
  then show "mset (todo s) + mset (queue (jobs s))
      = mset (todo s') + mset (queue (jobs s')) + mset (taken s s')"
    and "sum_list (map held (workers s)) + mset (queue (results s))
        + mset (map (\<lambda>j. outcome verifier config (JobEmail j)) (taken s s'))
      = sum_list (map held (workers s')) + mset (queue (results s')) + mset (delivered s s')"
    and "(stats s', invalidEmails s') = fold collect (delivered s s') (stats s, invalidEmails s)"
    by blast+
qed

lemma trace_exec:
  "exec verifier config sched s0 = Some s \<Longrightarrow>
    mset (todo s0) + mset (queue (jobs s0))
      = mset (todo s) + mset (queue (jobs s)) + mset (verified_jobs verifier config sched s0)
    \<and> sum_list (map held (workers s0)) + mset (queue (results s0))
        + mset (map (\<lambda>j. outcome verifier config (JobEmail j))
            (verified_jobs verifier config sched s0))
      = sum_list (map held (workers s)) + mset (queue (results s))
        + mset (collected_results verifier config sched s0)
    \<and> (stats s, invalidEmails s)
      = fold collect (collected_results verifier config sched s0) (stats s0, invalidEmails s0)"
proof (induction sched arbitrary: s0)
  case Nil
  then show ?case by simp
next
  case (Cons a sched)
  from Cons.prems obtain s1 where s1: "step verifier config a s0 = Some s1"
    and rest: "exec verifier config sched s1 = Some s"
    by (auto split: option.splits)
  note t = trace_step [OF s1]
  note ih = Cons.IH [OF rest]
  have j: "mset (todo s0) + mset (queue (jobs s0))
      = mset (todo s) + mset (queue (jobs s))
        + mset (verified_jobs verifier config (a # sched) s0)"
    using t(1) ih s1 by (simp add: ac_simps)
  have r: "sum_list (map held (workers s0)) + mset (queue (results s0))
        + mset (map (\<lambda>j. outcome verifier config (JobEmail j))
            (verified_jobs verifier config (a # sched) s0))
      = sum_list (map held (workers s)) + mset (queue (results s))
        + mset (collected_results verifier config (a # sched) s0)"
  proof -
    have "sum_list (map held (workers s0)) + mset (queue (results s0))
        + mset (map (\<lambda>j. outcome verifier config (JobEmail j))
            (verified_jobs verifier config (a # sched) s0))
      = (sum_list (map held (workers s0)) + mset (queue (results s0))
        + mset (map (\<lambda>j. outcome verifier config (JobEmail j)) (taken s0 s1)))
        + mset (map (\<lambda>j. outcome verifier config (JobEmail j))
            (verified_jobs verifier config sched s1))"
      using s1 by (simp add: ac_simps)
    also have "\<dots> = (sum_list (map held (workers s1)) + mset (queue (results s1))
        + mset (map (\<lambda>j. outcome verifier config (JobEmail j))
            (verified_jobs verifier config sched s1)))
        + mset (delivered s0 s1)"
      unfolding t(2) by (simp add: ac_simps)
    also have "\<dots> = (sum_list (map held (workers s)) + mset (queue (results s))
        + mset (collected_results verifier config sched s1)) + mset (delivered s0 s1)"
      using ih by simp
    also have "\<dots> = sum_list (map held (workers s)) + mset (queue (results s))
        + mset (collected_results verifier config (a # sched) s0)"
      using s1 by (simp add: ac_simps)
    finally show ?thesis .
  qed
  have c: "(stats s, invalidEmails s)
      = fold collect (collected_results verifier config (a # sched) s0)
          (stats s0, invalidEmails s0)"
    using t(3) ih s1 by simp
  from j r c show ?case by blast
qed

lemma distinct_all_jobs: "distinct (all_jobs emails)"
proof -
  have "Index \<circ> (\<lambda>(i, e). \<lparr>Index = i, JobEmail = e\<rparr>) = fst"
    by (auto simp: fun_eq_iff)
  then have "map Index (all_jobs emails) = [0..<length emails]"
    by (simp add: all_jobs_def)
  then have "distinct (map Index (all_jobs emails))" by simp
  then show ?thesis by (simp only: distinct_map)
qed

lemma trace_run:
  assumes run: "exec verifier config sched (processEmails_start emails config new_Stats) = Some s"
  shows "mset (all_jobs emails)
      = mset (todo s) + mset (queue (jobs s))
        + mset (verified_jobs verifier config sched
            (processEmails_start emails config new_Stats))"
    and "mset (map (\<lambda>j. outcome verifier config (JobEmail j))
          (verified_jobs verifier config sched (processEmails_start emails config new_Stats)))
      = sum_list (map held (workers s)) + mset (queue (results s))
        + mset (collected_results verifier config sched
            (processEmails_start emails config new_Stats))"
    and "invalidEmails s
      = map invalid_of (filter (\<lambda>r. \<not> IsValid r)
          (collected_results verifier config sched
            (processEmails_start emails config new_Stats)))"
proof -
  note t = trace_exec [OF run]
  from t show "mset (all_jobs emails)
      = mset (todo s) + mset (queue (jobs s))
        + mset (verified_jobs verifier config sched
            (processEmails_start emails config new_Stats))"
    by (simp add: processEmails_start_def make_chan_def)
  have "sum_list (map held (workers (processEmails_start emails config new_Stats))) = {#}"
    "queue (results (processEmails_start emails config new_Stats)) = []"
    by (simp_all add: processEmails_start_def make_chan_def no_result_held)
  with t show "mset (map (\<lambda>j. outcome verifier config (JobEmail j))
          (verified_jobs verifier config sched (processEmails_start emails config new_Stats)))
      = sum_list (map held (workers s)) + mset (queue (results s))
        + mset (collected_results verifier config sched
            (processEmails_start emails config new_Stats))"
    by simp
  have "stats (processEmails_start emails config new_Stats) = new_Stats"
    "invalidEmails (processEmails_start emails config new_Stats) = []"
    by (simp_all add: processEmails_start_def)
  with t have "(stats s, invalidEmails s)
      = fold collect (collected_results verifier config sched
          (processEmails_start emails config new_Stats)) (new_Stats, [])"
    by simp
  then have "invalidEmails s
      = snd (fold collect (collected_results verifier config sched
          (processEmails_start emails config new_Stats)) (new_Stats, []))"
    by (metis snd_conv)
  then show "invalidEmails s
      = map invalid_of (filter (\<lambda>r. \<not> IsValid r)
          (collected_results verifier config sched
            (processEmails_start emails config new_Stats)))"
    by (simp only: collected_prefix(3))
qed

lemma returned_collected:
  assumes inv: "shutdown_order s" and ret: "driver s = DReturned"
  shows "sum_list (map held (workers s)) = {#}" and "queue (results s) = []"
    and "todo s = []"
proof -
  from inv ret have res: "closed (results s)" "queue (results s) = []"
    unfolding shutdown_order_def by blast+
  with inv have ex: "list_all (\<lambda>w. w = WExited) (workers s)"
    unfolding shutdown_order_def by blast
  then show "sum_list (map held (workers s)) = {#}" by (rule all_exited_held)
  from res show "queue (results s) = []" by simp
  from inv ret show "todo s = []"
    unfolding shutdown_order_def by auto
qed

lemma demo_run:
  "exec demo_verifier demo_config demo_schedule
     (processEmails_start demo_emails demo_config new_Stats) = Some demo_final"
  by code_simp

section \<open>Counters\<close>

text \<open>
  C3 (amended). After the collector has processed any sequence of results, starting from
  counters that are zero, the counter of checked addresses is the sum of the counters of
  valid and of invalid addresses; so it is in every state that a run of \<open>processEmails\<close>
  reaches. When the run has completed, and the pool had at least one worker or the input
  was empty, the counter of checked addresses and that sum both equal the number of input
  addresses (which, as the length of a Go slice, is below \<open>2 ^ 63\<close>).
\<close>

theorem processEmails_totals:
  assumes run: "exec verifier config sched (processEmails_start emails config new_Stats) = Some s"
  shows "(\<forall>rs. TotalChecked (fst (fold collect rs (new_Stats, [])))
            = TotalValid (fst (fold collect rs (new_Stats, [])))
              + TotalInvalid (fst (fold collect rs (new_Stats, []))))
     \<and> TotalChecked (stats s) = TotalValid (stats s) + TotalInvalid (stats s)
     \<and> (completed s \<and> (0 < sint (Workers config) \<or> emails = []) \<and> length emails < 2 ^ 63 \<longrightarrow>
          sint (TotalChecked (stats s)) = int (length emails)
        \<and> sint (TotalValid (stats s)) + sint (TotalInvalid (stats s)) = int (length emails))"
proof -
  note inv = reachable_invariants [OF run]
  from inv(2) have sum: "TotalChecked (stats s) = TotalValid (stats s) + TotalInvalid (stats s)"
    and len: "TotalInvalid (stats s) = of_nat (length (invalidEmails s))"
    unfolding accounted_def by blast+
  have "sint (TotalChecked (stats s)) = int (length emails)
        \<and> sint (TotalValid (stats s)) + sint (TotalInvalid (stats s)) = int (length emails)"
    if fin: "completed s" and ok: "0 < sint (Workers config) \<or> emails = []"
      and small: "length emails < 2 ^ 63"
  proof -
    let ?outs = "map (outcome verifier config) emails"
    let ?a = "length (filter IsValid ?outs)"
    let ?b = "length (filter (\<lambda>r. \<not> IsValid r) ?outs)"
    note c = completed_counted [OF run fin ok]
    from mset_eq_length [OF c(2)] have b: "length (invalidEmails s) = ?b"
      by (simp only: length_map)
    have ab: "?a + ?b = length emails"
      using sum_length_filter_compl [of IsValid ?outs] by simp
    with small have "?a < 2 ^ 63" "?b < 2 ^ 63" by simp_all
    then have va: "sint (of_nat ?a :: 64 word) = int ?a"
      and vb: "sint (of_nat ?b :: 64 word) = int ?b"
      by (simp_all only: sint_of_nat_small)
    from sum c(1) len b have "TotalChecked (stats s) = of_nat (?a + ?b)"
      by (simp only: of_nat_add)
    with ab small have "sint (TotalChecked (stats s)) = int (length emails)"
      by (simp only: sint_of_nat_small)
    moreover from c(1) len b va vb ab
    have "sint (TotalValid (stats s)) + sint (TotalInvalid (stats s)) = int (length emails)"
      by simp
    ultimately show ?thesis by blast
  qed
  with sum collected_prefix(1) show ?thesis by blast
qed

theorem processEmails_totals_witness:
  "exec demo_verifier demo_config demo_schedule
     (processEmails_start demo_emails demo_config new_Stats) = Some demo_final
   \<and> completed demo_final \<and> 0 < sint (Workers demo_config) \<and> length demo_emails < 2 ^ 63
   \<and> TotalChecked (stats demo_final)
      = TotalValid (stats demo_final) + TotalInvalid (stats demo_final)
   \<and> sint (TotalChecked (stats demo_final)) = int (length demo_emails)
   \<and> sint (TotalValid (stats demo_final)) + sint (TotalInvalid (stats demo_final))
      = int (length demo_emails)"
proof -
  have c: "completed demo_final" by (simp add: completed_def demo_final_def)
  have w: "0 < sint (Workers demo_config)" by (simp add: demo_config_def)
  have l: "length demo_emails < 2 ^ 63" by (simp add: demo_emails_def)
  from processEmails_totals [OF demo_run] c w l demo_run show ?thesis by blast
qed

text \<open>
  The claim without the condition on the workers fails: with the worker count
  \<open>-9223372036854775807\<close> the run over one address completes, no worker having been
  started, and the counter of checked addresses is 0.
\<close>

theorem processEmails_totals_counterexample:
  "exec demo_verifier wrapped_config wrapped_schedule
     (processEmails_start [''good@example.com''] wrapped_config new_Stats)
     = Some (wrapped_final ''good@example.com'')
   \<and> completed (wrapped_final ''good@example.com'')
   \<and> sint (TotalChecked (stats (wrapped_final ''good@example.com'')))
      \<noteq> int (length [''good@example.com''])"
proof -
  have "exec demo_verifier wrapped_config wrapped_schedule
     (processEmails_start [''good@example.com''] wrapped_config new_Stats)
     = Some (wrapped_final ''good@example.com'')"
    by code_simp
  then show ?thesis by (simp add: completed_def wrapped_final_def)
qed

section \<open>The list of invalid addresses\<close>

lemma Email_outcome: "Email (outcome verifier config e) = e"
  by (simp add: outcome_def verifyEmail_def split: sum.splits prod.splits)

lemma invalid_jobs:
  "map invalid_of (filter (\<lambda>r. \<not> IsValid r)
      (map (\<lambda>j. outcome verifier config (JobEmail j)) js))
    = map (\<lambda>j. \<lparr>email = JobEmail j, reason = Reason (outcome verifier config (JobEmail j))\<rparr>)
        (filter (\<lambda>j. \<not> IsValid (outcome verifier config (JobEmail j))) js)"
  by (induction js) (simp_all add: invalid_of_def Email_outcome)

lemma invalid_outcomes:
  "map invalid_of (filter (\<lambda>r. \<not> IsValid r) (map (outcome verifier config) emails))
    = map (\<lambda>e. \<lparr>email = e, reason = Reason (outcome verifier config e)\<rparr>)
        (filter (\<lambda>e. \<not> IsValid (outcome verifier config e)) emails)"
  by (induction emails) (simp_all add: invalid_of_def Email_outcome)

text \<open>What the concrete run verifies and collects.\<close>

lemma demo_trace:
  "verified_jobs demo_verifier demo_config demo_schedule
      (processEmails_start demo_emails demo_config new_Stats)
    = [\<lparr>Index = 0, JobEmail = ''good@example.com''\<rparr>,
       \<lparr>Index = 1, JobEmail = ''bad@example.com''\<rparr>]
   \<and> collected_results demo_verifier demo_config demo_schedule
      (processEmails_start demo_emails demo_config new_Stats)
    = [\<lparr>Email = ''bad@example.com'', IsValid = False,
         Reason = ''verification error: dial tcp: i/o timeout''\<rparr>,
       \<lparr>Email = ''good@example.com'', IsValid = True, Reason = ''''\<rparr>]"
  by code_simp

text \<open>
  The run with the worker count \<open>-9223372036854775807\<close> over one address: no worker is
  started, so no job is verified and no result is collected, and the list is empty.
\<close>

lemma wrapped_trace:
  "exec demo_verifier wrapped_config wrapped_schedule
     (processEmails_start [''bad@example.com''] wrapped_config new_Stats)
     = Some (wrapped_final ''bad@example.com'')
   \<and> verified_jobs demo_verifier wrapped_config wrapped_schedule
      (processEmails_start [''bad@example.com''] wrapped_config new_Stats) = []
   \<and> collected_results demo_verifier wrapped_config wrapped_schedule
      (processEmails_start [''bad@example.com''] wrapped_config new_Stats) = []
   \<and> invalidEmails (wrapped_final ''bad@example.com'') = []"
  by code_simp

text \<open>
  C4. After the collector has processed any sequence of results, the counter of invalid
  addresses equals the length of the list of invalid addresses, which holds the invalid
  results of the sequence in order; the counter equals that length in every state that a run
  reaches, where the list holds, in order, the invalid ones among the results that the
  collector has processed. The jobs that the workers verify are jobs of the input, each
  position of the input at most once. When the run has completed, the results that the
  collector has processed are, up to order, the outcomes of the jobs that the workers have
  verified, and the list holds, up to order, exactly one entry for each of these jobs whose
  outcome is invalid, with the address of the job and the reason of its outcome. When
  moreover the pool had at least one worker or the input was empty, the workers have
  verified every job of the input, and the list holds, up to order, exactly one entry for
  each position of the input whose outcome is invalid.
\<close>

theorem invalidEmails_entries:
  assumes run: "exec verifier config sched (processEmails_start emails config new_Stats) = Some s"
  shows "(\<forall>rs. TotalInvalid (fst (fold collect rs (new_Stats, [])))
            = of_nat (length (snd (fold collect rs (new_Stats, []))))
          \<and> snd (fold collect rs (new_Stats, []))
            = map invalid_of (filter (\<lambda>r. \<not> IsValid r) rs))
     \<and> TotalInvalid (stats s) = of_nat (length (invalidEmails s))
     \<and> (length emails < 2 ^ 63 \<longrightarrow> sint (TotalInvalid (stats s)) = int (length (invalidEmails s)))
     \<and> invalidEmails s
        = map invalid_of (filter (\<lambda>r. \<not> IsValid r)
            (collected_results verifier config sched
              (processEmails_start emails config new_Stats)))
     \<and> mset (verified_jobs verifier config sched (processEmails_start emails config new_Stats))
        \<subseteq># mset (all_jobs emails)
     \<and> distinct (all_jobs emails) \<and> map JobEmail (all_jobs emails) = emails
     \<and> (completed s \<longrightarrow>
          mset (collected_results verifier config sched
              (processEmails_start emails config new_Stats))
            = mset (map (\<lambda>j. outcome verifier config (JobEmail j))
                (verified_jobs verifier config sched
                  (processEmails_start emails config new_Stats)))
          \<and> mset (invalidEmails s)
            = mset (map (\<lambda>j. \<lparr>email = JobEmail j,
                    reason = Reason (outcome verifier config (JobEmail j))\<rparr>)
                (filter (\<lambda>j. \<not> IsValid (outcome verifier config (JobEmail j)))
                  (verified_jobs verifier config sched
                    (processEmails_start emails config new_Stats)))))
     \<and> (completed s \<and> (0 < sint (Workers config) \<or> emails = []) \<longrightarrow>
          mset (verified_jobs verifier config sched
              (processEmails_start emails config new_Stats))
            = mset (all_jobs emails)
          \<and> mset (invalidEmails s)
            = mset (map (\<lambda>e. \<lparr>email = e, reason = Reason (outcome verifier config e)\<rparr>)
                (filter (\<lambda>e. \<not> IsValid (outcome verifier config e)) emails)))"
proof -
  note inv = reachable_invariants [OF run]
  note tr = trace_run [OF run]
  let ?vs = "verified_jobs verifier config sched (processEmails_start emails config new_Stats)"
  let ?cs = "collected_results verifier config sched
    (processEmails_start emails config new_Stats)"
  from inv(2) obtain counted where
    outs: "mset (map (outcome verifier config) emails) = in_flight verifier config s + counted"
    and len: "TotalInvalid (stats s) = of_nat (length (invalidEmails s))"
    and lst: "mset (invalidEmails s) =
           image_mset invalid_of (filter_mset (\<lambda>r. \<not> IsValid r) counted)"
    unfolding accounted_def by blast
  have "length (invalidEmails s) = size (mset (invalidEmails s))" by simp
  also have "\<dots> = size (filter_mset (\<lambda>r. \<not> IsValid r) counted)"
    unfolding lst by simp
  also have "\<dots> \<le> size counted" by (rule size_filter_mset_lesseq)
  also have "\<dots> \<le> size (in_flight verifier config s + counted)" by simp
  also have "\<dots> = length emails" unfolding outs [symmetric] by simp
  finally have le: "length (invalidEmails s) \<le> length emails" .
  have small: "sint (TotalInvalid (stats s)) = int (length (invalidEmails s))"
    if "length emails < 2 ^ 63"
  proof -
    from le that have "length (invalidEmails s) < 2 ^ 63" by simp
    then show ?thesis unfolding len by (rule sint_of_nat_small)
  qed
  have sub: "mset ?vs \<subseteq># mset (all_jobs emails)"
    unfolding tr(1) by simp
  have fin: "mset ?cs = mset (map (\<lambda>j. outcome verifier config (JobEmail j)) ?vs)
      \<and> mset (invalidEmails s)
        = mset (map (\<lambda>j. \<lparr>email = JobEmail j,
                reason = Reason (outcome verifier config (JobEmail j))\<rparr>)
            (filter (\<lambda>j. \<not> IsValid (outcome verifier config (JobEmail j))) ?vs))"
    if "completed s"
  proof -
    from that have ret: "driver s = DReturned" by (simp add: completed_def)
    note d = returned_collected [OF inv(1) ret]
    from tr(2) d have eq: "mset ?cs = mset (map (\<lambda>j. outcome verifier config (JobEmail j)) ?vs)"
      by simp
    have "mset (invalidEmails s)
        = image_mset invalid_of (filter_mset (\<lambda>r. \<not> IsValid r) (mset ?cs))"
      unfolding tr(3) by simp
    also have "\<dots> = mset (map invalid_of (filter (\<lambda>r. \<not> IsValid r)
        (map (\<lambda>j. outcome verifier config (JobEmail j)) ?vs)))"
      unfolding eq by (simp only: mset_filter mset_map)
    finally have "mset (invalidEmails s)
        = mset (map (\<lambda>j. \<lparr>email = JobEmail j,
                reason = Reason (outcome verifier config (JobEmail j))\<rparr>)
            (filter (\<lambda>j. \<not> IsValid (outcome verifier config (JobEmail j))) ?vs))"
      by (simp only: invalid_jobs)
    with eq show ?thesis by blast
  qed
  have full: "mset ?vs = mset (all_jobs emails)
      \<and> mset (invalidEmails s)
        = mset (map (\<lambda>e. \<lparr>email = e, reason = Reason (outcome verifier config e)\<rparr>)
            (filter (\<lambda>e. \<not> IsValid (outcome verifier config e)) emails))"
    if c: "completed s" and ok: "0 < sint (Workers config) \<or> emails = []"
  proof -
    from c have ret: "driver s = DReturned" by (simp add: completed_def)
    note d = returned_collected [OF inv(1) ret]
    have "queue (jobs s) = []"
    proof (cases "emails = []")
      case True
      with tr(1) show ?thesis by (simp add: all_jobs_def)
    next
      case False
      with ok inv(3) have "workers s \<noteq> []"
        by (auto simp: worker_count_def)
      moreover from inv(1) ret have "list_all (\<lambda>w. w = WExited) (workers s)"
        unfolding shutdown_order_def by blast
      ultimately have "WExited \<in> set (workers s)"
        by (cases "workers s") simp_all
      with inv(1) show ?thesis unfolding shutdown_order_def by blast
    qed
    with tr(1) d(3) have "mset ?vs = mset (all_jobs emails)" by simp
    moreover have "mset (invalidEmails s)
        = mset (map (\<lambda>e. \<lparr>email = e, reason = Reason (outcome verifier config e)\<rparr>)
            (filter (\<lambda>e. \<not> IsValid (outcome verifier config e)) emails))"
      using completed_counted(2) [OF run c ok] by (simp only: invalid_outcomes)
    ultimately show ?thesis by blast
  qed
  from len small tr(3) sub distinct_all_jobs [of emails] all_jobs_emails [of emails] fin full
    collected_prefix(2,3)
  show ?thesis by blast
qed

theorem invalidEmails_entries_witness:
  "exec demo_verifier demo_config demo_schedule
     (processEmails_start demo_emails demo_config new_Stats) = Some demo_final
   \<and> completed demo_final \<and> 0 < sint (Workers demo_config) \<and> length demo_emails < 2 ^ 63
   \<and> sint (TotalInvalid (stats demo_final)) = int (length (invalidEmails demo_final))
   \<and> verified_jobs demo_verifier demo_config demo_schedule
      (processEmails_start demo_emails demo_config new_Stats)
    = [\<lparr>Index = 0, JobEmail = ''good@example.com''\<rparr>,
       \<lparr>Index = 1, JobEmail = ''bad@example.com''\<rparr>]
   \<and> invalidEmails demo_final
      = map invalid_of (filter (\<lambda>r. \<not> IsValid r)
          (collected_results demo_verifier demo_config demo_schedule
            (processEmails_start demo_emails demo_config new_Stats)))
   \<and> mset (invalidEmails demo_final)
      = mset (map (\<lambda>j. \<lparr>email = JobEmail j,
              reason = Reason (outcome demo_verifier demo_config (JobEmail j))\<rparr>)
          (filter (\<lambda>j. \<not> IsValid (outcome demo_verifier demo_config (JobEmail j)))
            (verified_jobs demo_verifier demo_config demo_schedule
              (processEmails_start demo_emails demo_config new_Stats))))
   \<and> mset (invalidEmails demo_final)
      = mset (map (\<lambda>e. \<lparr>email = e, reason = Reason (outcome demo_verifier demo_config e)\<rparr>)
          (filter (\<lambda>e. \<not> IsValid (outcome demo_verifier demo_config e)) demo_emails))"
proof -
  have c: "completed demo_final" by (simp add: completed_def demo_final_def)
  have w: "0 < sint (Workers demo_config)" by (simp add: demo_config_def)
  have l: "length demo_emails < 2 ^ 63" by (simp add: demo_emails_def)
  from invalidEmails_entries [OF demo_run] c w l demo_run demo_trace show ?thesis by blast
qed

section \<open>The order of the shutdown\<close>

text \<open>
  C9. In every state that a run reaches: when the job channel is closed, no job is left to
  send and the driver, its only sender, has left the dispatch loop; when the result channel
  is closed, every worker has left its loop and the driver has passed \<open>close(results)\<close>;
  when the collector has left its loop, the result channel is closed and empty; no goroutine
  has sent on a closed channel or closed a channel twice; and a step of a worker or of the
  collector closes neither channel.
\<close>

theorem shutdown_protocol:
  assumes run: "exec verifier config sched (processEmails_start emails config st0) = Some s"
  shows "(closed (jobs s) \<longrightarrow> todo s = [] \<and> driver s \<noteq> DSend)
     \<and> (closed (results s) \<longrightarrow>
          list_all (\<lambda>w. w = WExited) (workers s)
          \<and> (driver s = DWaitCollector \<or> driver s = DReturned))
     \<and> (collector s = CExited \<longrightarrow> closed (results s) \<and> queue (results s) = [])
     \<and> panicked s \<noteq> Some SendOnClosed \<and> panicked s \<noteq> Some CloseOfClosed
     \<and> (\<forall>i s'. worker_step verifier config i s = Some s' \<longrightarrow>
          closed (jobs s') = closed (jobs s) \<and> closed (results s') = closed (results s))
     \<and> (\<forall>s'. collector_step config s = Some s' \<longrightarrow>
          closed (jobs s') = closed (jobs s) \<and> closed (results s') = closed (results s))"
proof -
  from run have inv: "shutdown_order s"
    by (rule shutdown_order_exec [OF shutdown_order_start])
  have w: "closed (jobs s') = closed (jobs s) \<and> closed (results s') = closed (results s)"
    if "worker_step verifier config i s = Some s'" for i s'
    using that
    by (auto simp: worker_step_def chan_recv_def chan_send_def
        split: if_splits worker_pc.splits list.splits)
  have c: "closed (jobs s') = closed (jobs s) \<and> closed (results s') = closed (results s)"
    if "collector_step config s = Some s'" for s'
    using that
    by (auto simp: collector_step_def chan_recv_def Let_def split_beta
        split: if_splits collector_pc.splits list.splits)
  from inv w c show ?thesis unfolding shutdown_order_def by blast
qed

lemma demo_mid_run:
  "exec demo_verifier demo_config (take 5 demo_schedule)
     (processEmails_start demo_emails demo_config new_Stats) = Some demo_mid"
  by code_simp

theorem shutdown_protocol_witness:
  "exec demo_verifier demo_config demo_schedule
     (processEmails_start demo_emails demo_config new_Stats) = Some demo_final
   \<and> closed (jobs demo_final) \<and> todo demo_final = [] \<and> driver demo_final \<noteq> DSend
   \<and> closed (results demo_final) \<and> list_all (\<lambda>w. w = WExited) (workers demo_final)
   \<and> collector demo_final = CExited \<and> queue (results demo_final) = []
   \<and> panicked demo_final \<noteq> Some SendOnClosed \<and> panicked demo_final \<noteq> Some CloseOfClosed
   \<and> exec demo_verifier demo_config (take 5 demo_schedule)
     (processEmails_start demo_emails demo_config new_Stats) = Some demo_mid
   \<and> worker_step demo_verifier demo_config 0 demo_mid \<noteq> None
   \<and> closed (results (the (worker_step demo_verifier demo_config 0 demo_mid)))
      = closed (results demo_mid)
   \<and> collector_step demo_config demo_mid \<noteq> None
   \<and> closed (results (the (collector_step demo_config demo_mid))) = closed (results demo_mid)"
proof -
  have c: "closed (jobs demo_final)" "closed (results demo_final)"
    "collector demo_final = CExited"
    by (simp_all add: demo_final_def)
  obtain s1 where s1: "worker_step demo_verifier demo_config 0 demo_mid = Some s1"
    by (simp add: worker_step_def demo_mid_def chan_send_def chan_size_def demo_config_def)
  obtain s2 where s2: "collector_step demo_config demo_mid = Some s2"
    by (simp add: collector_step_def demo_mid_def chan_recv_def demo_config_def Let_def
        split_beta)
  from shutdown_protocol [OF demo_mid_run] s1 s2
  have "closed (results s1) = closed (results demo_mid)"
    "closed (results s2) = closed (results demo_mid)"
    by blast+
  with s1 s2 have m: "worker_step demo_verifier demo_config 0 demo_mid \<noteq> None
     \<and> closed (results (the (worker_step demo_verifier demo_config 0 demo_mid)))
        = closed (results demo_mid)
     \<and> collector_step demo_config demo_mid \<noteq> None
     \<and> closed (results (the (collector_step demo_config demo_mid))) = closed (results demo_mid)"
    by simp
  from shutdown_protocol [OF demo_run] c demo_run demo_mid_run m show ?thesis by blast
qed

section \<open>The streaming reader: properties\<close>

lemma readEmailsStreaming_unfold:
  "readEmailsStreaming fs filename =
    (case fs filename of
       Inl e \<Rightarrow> Inl (OpenFailed e)
     | Inr file \<Rightarrow>
         (case stat file of
            Inl e \<Rightarrow> Inl (StatFailed e)
          | Inr size' \<Rightarrow>
              (let emails = make_slice (nat (estimatedCapacity size'));
                   decoder = content file
               in case decoder_Token decoder of
                    Inl e \<Rightarrow> Inl (ReadJSONFailed e)
                  | Inr (token, decoder1) \<Rightarrow>
                      if token \<noteq> Delim LBrace then Inl (ExpectedObjectStart token)
                      else
                        (case read_members decoder1 emails of
                           Inl e \<Rightarrow> Inl e
                         | Inr emails' \<Rightarrow> Inr (elems emails')))))"
  by (simp add: readEmailsStreaming_def readEmailsStreaming_slice_def Let_def
      split: sum.splits prod.splits)

lemma elems_append_slice: "elems (append_slice s x) = elems s @ [x]"
  by (simp add: append_slice_def)

lemma read_emails_elems:
  "elems s1 = elems s2 \<Longrightarrow>
    map_sum id (\<lambda>(s, d). (elems s, d)) (read_emails dec s1)
      = map_sum id (\<lambda>(s, d). (elems s, d)) (read_emails dec s2)"
proof (induction dec s1 arbitrary: s2 rule: read_emails.induct)
  case (1 dec emails)
  show ?case
  proof (cases "decoder_More dec")
    case False
    with "1.prems" show ?thesis by (simp add: read_emails.simps [of dec])
  next
    case True
    show ?thesis
    proof (cases "decoder_Decode dec")
      case (Inl e)
      with True show ?thesis by (simp add: read_emails.simps [of dec])
    next
      case (Inr r)
      obtain x dec' where r: "r = (x, dec')" by (cases r)
      have "elems (append_slice emails x) = elems (append_slice s2 x)"
        using "1.prems" by (simp add: elems_append_slice)
      from "1.IH" [OF True Inr [unfolded r] refl this] True Inr r show ?thesis
        by (simp add: read_emails.simps [of dec])
    qed
  qed
qed

lemma array_end_elems:
  assumes "map_sum id (\<lambda>(s, d). (elems s, d)) x = map_sum id (\<lambda>(s, d). (elems s, d)) y"
  shows "(case x of Inl e \<Rightarrow> Inl e
          | Inr (emails', dec3) \<Rightarrow>
              (case decoder_Token dec3 of Inl e \<Rightarrow> Inl (ReadArrayEndFailed e)
               | Inr end_token \<Rightarrow> Inr (elems emails')))
       = (case y of Inl e \<Rightarrow> Inl e
          | Inr (emails', dec3) \<Rightarrow>
              (case decoder_Token dec3 of Inl e \<Rightarrow> Inl (ReadArrayEndFailed e)
               | Inr end_token \<Rightarrow> Inr (elems emails')))"
  using assms by (cases x; cases y) (auto split: sum.splits)

lemma read_members_elems:
  "elems s1 = elems s2 \<Longrightarrow>
    map_sum id elems (read_members dec s1) = map_sum id elems (read_members dec s2)"
proof (induction dec s1 arbitrary: s2 rule: read_members.induct)
  case (1 dec emails)
  show ?case
  proof (cases "decoder_More dec")
    case False
    with "1.prems" show ?thesis by (simp add: read_members.simps [of dec])
  next
    case True
    show ?thesis
    proof (cases "decoder_Token dec")
      case (Inl e)
      with True show ?thesis by (simp add: read_members.simps [of dec])
    next
      case (Inr r)
      obtain t dec1 where r: "r = (t, dec1)" by (cases r)
      show ?thesis
      proof (cases "t = TString ''emails''")
        case False
        from "1.IH" [OF True Inr [unfolded r] refl False "1.prems"] True Inr r False
        show ?thesis by (simp add: read_members.simps [of dec])
      next
        case emails: True
        note same = array_end_elems [OF read_emails_elems [OF "1.prems"]]
        have unfold: "map_sum id elems (read_members dec s) =
          (case decoder_Token dec1 of
                 Inl e \<Rightarrow> Inl (ReadArrayStartFailed e)
               | Inr (token', dec2) \<Rightarrow>
                   if token' \<noteq> Delim LBrack then Inl (ExpectedArrayStart token')
                   else
                     (case read_emails dec2 s of
                        Inl e \<Rightarrow> Inl e
                      | Inr (emails', dec3) \<Rightarrow>
                          (case decoder_Token dec3 of
                             Inl e \<Rightarrow> Inl (ReadArrayEndFailed e)
                           | Inr end_token \<Rightarrow> Inr (elems emails'))))" for s
          using True Inr r emails
          by (simp add: read_members.simps [of dec] split: sum.splits prod.splits)
        show ?thesis unfolding unfold
          by (simp add: same split: sum.splits prod.splits)
      qed
    qed
  qed
qed

lemma case_sum_elems:
  "(case x of Inl e \<Rightarrow> Inl e | Inr emails' \<Rightarrow> Inr (elems emails')) = map_sum id elems x"
  by (cases x) simp_all

lemma readEmailsStreaming_size:
  "readEmailsStreaming (\<lambda>path. Inr \<lparr>stat = Inr size1, content = dec\<rparr>) filename
    = readEmailsStreaming (\<lambda>path. Inr \<lparr>stat = Inr size2, content = dec\<rparr>) filename"
proof -
  have "map_sum id elems (read_members d (make_slice (nat (estimatedCapacity size1))))
    = map_sum id elems (read_members d (make_slice (nat (estimatedCapacity size2))))" for d
    by (rule read_members_elems) (simp add: make_slice_def)
  then show ?thesis
    by (simp add: readEmailsStreaming_unfold case_sum_elems split: sum.splits prod.splits)
qed

text \<open>The capacity of the slice: \<open>append\<close> keeps it while the elements fit, and never lowers it.\<close>

lemma cap_append_slice:
  "cap s \<le> cap (append_slice s x)"
  "length (elems s) < cap s \<Longrightarrow> cap (append_slice s x) = cap s"
  "length (elems s) \<le> cap s \<Longrightarrow> length (elems (append_slice s x)) \<le> cap (append_slice s x)"
  by (auto simp: append_slice_def)

lemma read_emails_cap:
  "read_emails dec s = Inr (s', dec') \<Longrightarrow>
    cap s \<le> cap s' \<and> length (elems s) \<le> length (elems s')
    \<and> (length (elems s') \<le> cap s \<longrightarrow> cap s' = cap s)
    \<and> (length (elems s) \<le> cap s \<longrightarrow> length (elems s') \<le> cap s')"
proof (induction dec s rule: read_emails.induct)
  case (1 dec emails)
  show ?case
  proof (cases "decoder_More dec")
    case False
    with "1.prems" show ?thesis by (simp add: read_emails.simps [of dec emails])
  next
    case True
    with "1.prems" obtain x d where dd: "decoder_Decode dec = Inr (x, d)"
      and rest: "read_emails d (append_slice emails x) = Inr (s', dec')"
      by (auto simp: read_emails.simps [of dec emails] split: sum.splits)
    note ih = "1.IH" [OF True dd refl rest]
    note c = cap_append_slice [of emails x]
    have l: "length (elems (append_slice emails x)) = Suc (length (elems emails))"
      by (simp add: elems_append_slice)
    from ih c l show ?thesis by auto
  qed
qed

lemma read_members_cap:
  "read_members dec s = Inr s' \<Longrightarrow>
    cap s \<le> cap s' \<and> length (elems s) \<le> length (elems s')
    \<and> (length (elems s') \<le> cap s \<longrightarrow> cap s' = cap s)
    \<and> (length (elems s) \<le> cap s \<longrightarrow> length (elems s') \<le> cap s')"
proof (induction dec s rule: read_members.induct)
  case (1 dec emails)
  show ?case
  proof (cases "decoder_More dec")
    case False
    with "1.prems" show ?thesis by (simp add: read_members.simps [of dec emails])
  next
    case True
    with "1.prems" obtain t d1 where tk: "decoder_Token dec = Inr (t, d1)"
      by (auto simp: read_members.simps [of dec emails] split: sum.splits)
    show ?thesis
    proof (cases "t = TString ''emails''")
      case False
      with "1.prems" True tk have "read_members d1 emails = Inr s'"
        by (simp add: read_members.simps [of dec emails])
      with "1.IH" [OF True tk refl False] show ?thesis by simp
    next
      case t: True
      with "1.prems" True tk obtain d2 d3 where "read_emails d2 emails = Inr (s', d3)"
        by (auto simp: read_members.simps [of dec emails] split: sum.splits if_splits)
      then show ?thesis by (rule read_emails_cap)
    qed
  qed
qed

lemma readEmailsStreaming_slice_cap:
  assumes "readEmailsStreaming_slice (\<lambda>path. Inr \<lparr>stat = Inr size1, content = dec\<rparr>) filename
      = Inr sl"
  shows "nat (estimatedCapacity size1) \<le> cap sl"
    and "length (elems sl) \<le> cap sl"
    and "length (elems sl) \<le> nat (estimatedCapacity size1)
      \<Longrightarrow> cap sl = nat (estimatedCapacity size1)"
proof -
  from assms obtain d where "read_members d (make_slice (nat (estimatedCapacity size1))) = Inr sl"
    by (auto simp: readEmailsStreaming_slice_def Let_def split: sum.splits if_splits)
  note c = read_members_cap [OF this]
  from c show "nat (estimatedCapacity size1) \<le> cap sl" by (simp add: make_slice_def)
  from c show "length (elems sl) \<le> cap sl" by (simp add: make_slice_def)
  from c show "cap sl = nat (estimatedCapacity size1)"
    if "length (elems sl) \<le> nat (estimatedCapacity size1)"
    using that by (simp add: make_slice_def)
qed

lemma estimatedCapacity_div:
  "estimatedCapacity size1 = max 100 (min 10000000 (size1 div 35))"
proof (cases "0 \<le> size1")
  case True
  then show ?thesis by (simp add: estimatedCapacity_def go_quot_def Let_def)
next
  case False
  then have "size1 div 35 < 0" by simp
  moreover from False have "go_quot size1 35 \<le> 0"
    by (simp add: go_quot_def)
  ultimately show ?thesis by (simp add: estimatedCapacity_def Let_def)
qed
text \<open>The concrete document read from a file of 7,000 bytes.\<close>

lemma demo_document_slice:
  "readEmailsStreaming_slice (file_of 7000 demo_document) ''data/data.json''
    = Inr \<lparr>elems = [''good@example.com'', ''bad@example.com''], cap = 200\<rparr>"
  by code_simp

text \<open>
  C6. The capacity that \<open>readEmailsStreaming\<close> asks for is the size of the file divided by
  35 and clamped to the interval from 100 to 10,000,000: it lies in that interval for every
  size, it is the quotient itself for the sizes from 3,500 to 350,000,034, it is 100 for a
  file of one byte, 200 for a file of 7,000 bytes and 10,000,000 for a file of ten
  gigabytes. The size has no other use: two files with the same content and different sizes
  give the same result, be it the addresses or the error. When the file is read, the slice
  that is returned has at least the capacity asked for, and exactly that capacity when the
  addresses fit in it.
\<close>

theorem estimatedCapacity_clamped:
  "100 \<le> estimatedCapacity size1 \<and> estimatedCapacity size1 \<le> 10000000
   \<and> estimatedCapacity size1 = max 100 (min 10000000 (go_quot size1 35))
   \<and> estimatedCapacity size1 = max 100 (min 10000000 (size1 div 35))
   \<and> (3500 \<le> size1 \<and> size1 < 350000035 \<longrightarrow> estimatedCapacity size1 = size1 div 35)
   \<and> estimatedCapacity 1 = 100
   \<and> estimatedCapacity 3535 = 101
   \<and> estimatedCapacity 7000 = 200
   \<and> estimatedCapacity 349999999 = 9999999
   \<and> estimatedCapacity 10000000000 = 10000000
   \<and> readEmailsStreaming (\<lambda>path. Inr \<lparr>stat = Inr size1, content = dec\<rparr>) filename
      = readEmailsStreaming (\<lambda>path. Inr \<lparr>stat = Inr size2, content = dec\<rparr>) filename
   \<and> (\<forall>sl. readEmailsStreaming_slice (\<lambda>path. Inr \<lparr>stat = Inr size1, content = dec\<rparr>) filename
          = Inr sl \<longrightarrow>
        readEmailsStreaming (\<lambda>path. Inr \<lparr>stat = Inr size1, content = dec\<rparr>) filename
          = Inr (elems sl)
        \<and> nat (estimatedCapacity size1) \<le> cap sl \<and> length (elems sl) \<le> cap sl
        \<and> (length (elems sl) \<le> nat (estimatedCapacity size1) \<longrightarrow>
             cap sl = nat (estimatedCapacity size1)))"
proof -
  have "100 \<le> estimatedCapacity size1" "estimatedCapacity size1 \<le> 10000000"
    "estimatedCapacity size1 = max 100 (min 10000000 (go_quot size1 35))"
    by (simp_all add: estimatedCapacity_def Let_def)
  moreover have "estimatedCapacity 1 = 100" "estimatedCapacity 10000000000 = 10000000"
    "estimatedCapacity 3535 = 101" "estimatedCapacity 7000 = 200"
    "estimatedCapacity 349999999 = 9999999"
    by (simp_all add: estimatedCapacity_def go_quot_def Let_def)
  moreover note d = estimatedCapacity_div [of size1]
  moreover have "estimatedCapacity size1 = size1 div 35"
    if "3500 \<le> size1 \<and> size1 < 350000035"
  proof -
    from that have "100 \<le> size1 div 35" "size1 div 35 \<le> 10000000"
      by presburger+
    then show ?thesis unfolding d by simp
  qed
  moreover have "readEmailsStreaming (\<lambda>path. Inr \<lparr>stat = Inr size1, content = dec\<rparr>) filename
          = Inr (elems sl)
        \<and> nat (estimatedCapacity size1) \<le> cap sl \<and> length (elems sl) \<le> cap sl
        \<and> (length (elems sl) \<le> nat (estimatedCapacity size1) \<longrightarrow>
             cap sl = nat (estimatedCapacity size1))"
    if "readEmailsStreaming_slice (\<lambda>path. Inr \<lparr>stat = Inr size1, content = dec\<rparr>) filename
          = Inr sl" for sl
    using readEmailsStreaming_slice_cap [OF that] that by (simp add: readEmailsStreaming_def)
  ultimately show ?thesis using readEmailsStreaming_size [of size1 dec filename size2]
    by blast
qed

theorem estimatedCapacity_clamped_witness:
  "(3500 :: int) \<le> 7000 \<and> (7000 :: int) < 350000035 \<and> estimatedCapacity 7000 = 7000 div 35
   \<and> readEmailsStreaming_slice (file_of 7000 demo_document) ''data/data.json''
      = Inr \<lparr>elems = [''good@example.com'', ''bad@example.com''], cap = 200\<rparr>
   \<and> length [''good@example.com'', ''bad@example.com''] \<le> nat (estimatedCapacity 7000)
   \<and> readEmailsStreaming (file_of 7000 demo_document) ''data/data.json''
      = Inr [''good@example.com'', ''bad@example.com'']
   \<and> cap \<lparr>elems = [''good@example.com'', ''bad@example.com''], cap = 200\<rparr>
      = nat (estimatedCapacity 7000)"
proof -
  note sl = demo_document_slice
  note t = estimatedCapacity_clamped [of 7000 "tokens demo_document" "''data/data.json''" 7000]
  have e: "estimatedCapacity 7000 = 200" using t by blast
  have l: "length [''good@example.com'', ''bad@example.com''] \<le> nat (estimatedCapacity 7000)"
    unfolding e by simp
  from t sl l show ?thesis unfolding file_of_def by simp
qed
subsection \<open>Where the member "emails" is found\<close>

text \<open>
  When every member before "emails" has another name and a value of one token that is not
  the string "emails", the reader returns the strings of the array, in order.
\<close>

lemma read_emails_strings:
  "\<exists>s'. read_emails (map TString es @ Delim RBrack # rest) s = Inr (s', Delim RBrack # rest)
     \<and> elems s' = elems s @ es"
proof (induction es arbitrary: s)
  case Nil
  show ?case by (simp add: read_emails.simps [of "Delim RBrack # rest"] decoder_More_def)
next
  case (Cons e es)
  from Cons.IH [of "append_slice s e"] obtain s' where
    "read_emails (map TString es @ Delim RBrack # rest) (append_slice s e)
      = Inr (s', Delim RBrack # rest)"
    "elems s' = elems (append_slice s e) @ es"
    by blast
  then show ?case
    by (simp add: read_emails.simps [of "TString e # map TString es @ Delim RBrack # rest"]
        decoder_More_def decoder_Decode_def elems_append_slice)
qed

lemma read_members_plain:
  assumes "\<forall>(k, v) \<in> set pre. k \<noteq> ''emails'' \<and> plain_value v"
  shows "read_members (members pre @ rest) s = read_members rest s"
  using assms
proof (induction pre)
  case Nil
  show ?case by simp
next
  case (Cons m pre)
  obtain k v where m: "m = (k, v)" by (cases m)
  with Cons.prems have k: "k \<noteq> ''emails''" and v: "plain_value v" by simp_all
  from v obtain t where t: "tokens v = [t]" "t \<noteq> TString ''emails''"
    "t \<noteq> Delim RBrack" "t \<noteq> Delim RBrace"
    by (cases v) simp_all
  have "read_members (TString k # t # members pre @ rest) s
      = read_members (t # members pre @ rest) s"
    using k by (simp add: read_members.simps [of "TString k # t # members pre @ rest"]
        decoder_More_def decoder_Token_def)
  also have "\<dots> = read_members (members pre @ rest) s"
    using t by (simp add: read_members.simps [of "t # members pre @ rest"]
        decoder_More_def decoder_Token_def)
  also have "\<dots> = read_members rest s"
    using Cons.prems by (intro Cons.IH) simp
  finally show ?case using m t by simp
qed

lemma readEmailsStreaming_plain_members:
  assumes "\<forall>(k, v) \<in> set pre. k \<noteq> ''emails'' \<and> plain_value v"
  shows "readEmailsStreaming
      (file_of size1 (JObject (pre @ (''emails'', JArray (map JString es)) # post))) filename
    = Inr es"
proof -
  let ?s = "make_slice (nat (estimatedCapacity size1))"
  let ?rest = "members post @ [Delim RBrace]"
  have el: "elements (map JString es) = map TString es"
    by (induction es) simp_all
  have toks: "tokens (JObject (pre @ (''emails'', JArray (map JString es)) # post))
      = Delim LBrace # members pre
          @ TString ''emails'' # Delim LBrack # map TString es @ Delim RBrack # ?rest"
    by (induction pre) (auto simp: el)
  from read_emails_strings [of es ?rest ?s] obtain s' where
    s': "read_emails (map TString es @ Delim RBrack # ?rest) ?s = Inr (s', Delim RBrack # ?rest)"
    "elems s' = elems ?s @ es"
    by blast
  have "read_members
      (members pre @ TString ''emails'' # Delim LBrack # map TString es @ Delim RBrack # ?rest) ?s
    = read_members (TString ''emails'' # Delim LBrack # map TString es @ Delim RBrack # ?rest) ?s"
    by (rule read_members_plain [OF assms])
  also have "\<dots> = Inr s'"
    using s'(1)
    by (simp add: read_members.simps
        [of "TString ''emails'' # Delim LBrack # map TString es @ Delim RBrack # ?rest"]
        decoder_More_def decoder_Token_def)
  finally show ?thesis
    using s'(2)
    by (simp add: readEmailsStreaming_unfold file_of_def toks decoder_Token_def make_slice_def
        del: tokens.simps)
qed

text \<open>
  C5 (the code departs from the claim). The claim is that the strings of the top-level
  member "emails" are returned wherever that member stands, also after members whose values
  are objects or arrays. The loop of the reader takes every token for a member name and
  stops at the first closing delimiter: after a member whose value is an object or an array
  it returns no address and no error; when a nested object has a member "emails" it returns
  the strings of that one; and after a member whose value is the string "emails" it fails.
\<close>

theorem readEmailsStreaming_nested_member_first:
  "readEmailsStreaming
     (file_of 38 (JObject [(''meta'', JObject []), (''emails'', JArray [JString ''a@example.com''])]))
     ''data/data.json'' = Inr []
   \<and> readEmailsStreaming
     (file_of 41 (JObject [(''tags'', JArray [JString ''x'']),
        (''emails'', JArray [JString ''a@example.com''])]))
     ''data/data.json'' = Inr []
   \<and> readEmailsStreaming
     (file_of 69 (JObject [(''meta'', JObject [(''emails'', JArray [JString ''nested@example.com''])]),
        (''emails'', JArray [JString ''a@example.com''])]))
     ''data/data.json'' = Inr [''nested@example.com'']
   \<and> readEmailsStreaming
     (file_of 44 (JObject [(''kind'', JString ''emails''),
        (''emails'', JArray [JString ''a@example.com''])]))
     ''data/data.json'' = Inl (ExpectedArrayStart (TString ''emails''))"
  by code_simp

subsection \<open>Documents without a member "emails"\<close>

text \<open>
  When the string "emails" occurs nowhere in the document, neither as a name nor as a value,
  the reader returns the empty list and no error.
\<close>

lemma read_members_no_emails:
  "TString ''emails'' \<notin> set dec \<Longrightarrow> read_members dec s = Inr s"
proof (induction dec)
  case Nil
  show ?case by (simp add: read_members.simps [of "[]"] decoder_More_def)
next
  case (Cons t dec)
  then show ?case
    by (auto simp: read_members.simps [of "t # dec"] decoder_More_def decoder_Token_def)
qed

lemma readEmailsStreaming_no_emails:
  assumes "TString ''emails'' \<notin> set (tokens (JObject ms))"
  shows "readEmailsStreaming (file_of size1 (JObject ms)) filename = Inr []"
proof -
  from assms have "TString ''emails'' \<notin> set (members ms @ [Delim RBrace])" by simp
  then have "read_members (members ms @ [Delim RBrace]) s = Inr s" for s
    by (rule read_members_no_emails)
  then show ?thesis
    by (simp add: readEmailsStreaming_unfold file_of_def decoder_Token_def make_slice_def)
qed
text \<open>
  C10 (the code departs from the claim). The claim is that a well-formed object with no
  member named "emails" gives the empty list and no error. The loop of the reader does not
  tell values from names: the object whose only member is "kind" with the string value
  "emails" has no member of that name, and the reader fails on it, expecting the start of
  an array.
\<close>

theorem readEmailsStreaming_string_value_emails:
  "readEmailsStreaming (file_of 17 (JObject [(''kind'', JString ''emails'')])) ''data/data.json''
     = Inl (ExpectedArrayStart (Delim RBrace))"
  by code_simp

section \<open>The streaming writer: properties\<close>

text \<open>
  Once the file is created and every record can be marshalled, the writer returns no
  error, whatever happens to the writes.
\<close>

lemma bufio_Write_fits:
  "err b = None \<Longrightarrow> length (buf b) + length p \<le> bufsize b \<Longrightarrow>
    bufio_Write b p = (b\<lparr>buf := buf b @ p\<rparr>, None)"
proof -
  assume e: "err b = None" and fits: "length (buf b) + length p \<le> bufsize b"
  from fits have "\<not> Available b < length p"
    unfolding Available_def by arith
  with e show ?thesis by (simp add: bufio_Write.simps [of b p])
qed


lemma write_invalid_marshalled:
  "\<forall>e \<in> set es. \<exists>j. json_Marshal env e = Inr j \<Longrightarrow> snd (write_invalid env n i es w) = None"
  by (induction es arbitrary: i w) (auto simp: Let_def)

lemma writeResultsStreaming_created:
  assumes "os_Create env filename = Inr file"
    and "\<forall>e \<in> set invalid. \<exists>j. json_Marshal env e = Inr j"
  shows "snd (writeResultsStreaming env filename invalid st) = None"
  using assms write_invalid_marshalled [OF assms(2)]
  by (simp add: writeResultsStreaming_def Let_def split_beta)

text \<open>
  C7 (the code departs from the claim). The claim is that the writer returns an error when
  the file cannot be created, and also when a write fails partway. The first holds. For the
  second, on a device with room for ten bytes the flush of the buffer fails after ten bytes
  of the document; the writer looks at the result of no write and of neither deferred
  call, and returns no error, with ten bytes in the file.
\<close>

theorem writeResultsStreaming_full_device:
  \<open>writeResultsStreaming (demo_env 10) ''data/invalid_emails.json''
     [\<lparr>email = ''bad@example.com'', reason = ''invalid email syntax''\<rparr>]
     \<lparr>TotalChecked = 2, TotalValid = 1, TotalInvalid = 1\<rparr>
   = (Some \<lparr>data = ''{\<newline>  "inval'', room = 0\<rparr>, None)
   \<and> writeResultsStreaming (demo_env 10) ''missing/invalid_emails.json''
     [\<lparr>email = ''bad@example.com'', reason = ''invalid email syntax''\<rparr>]
     \<lparr>TotalChecked = 2, TotalValid = 1, TotalInvalid = 1\<rparr>
   = (None, Some (''failed to create file missing/invalid_emails.json: ''
        @ ''open missing/invalid_emails.json: no such file or directory''))\<close>
  by (simp add: writeResultsStreaming_def demo_env_def demo_marshal_def NewWriterSize_def
      bufio_WriteString_def Fprintf_def bufio_Write_fits bufio_Flush_def file_Write_def
      format_d_def format_q_def digits.simps)

section \<open>The empty input\<close>






end
